theory Spec2Isabelle
  imports Main "HOL-Library.Word"
begin

unbundle bit_operations_syntax

section \<open>Machine words and the standard bit functions used by the library\<close>

text \<open>
  The state words and the packed polynomial coefficients are unsigned integers of a fixed
  width \<open>W = LENGTH('a)\<close>, modelled as \<open>'a word\<close>.  A \<open>std::array<T, N>\<close> is a list of
  \<open>N\<close> words; the template parameters \<open>N\<close>, \<open>A\<close>, \<open>B\<close>, \<open>C\<close> are passed as natural numbers.

  \<open>std::rotl(x, s)\<close>: with \<open>r = s % W\<close> the result is \<open>x\<close> when \<open>r = 0\<close> and
  \<open>(x << r) | (x >> (W - r))\<close> otherwise.
\<close>

definition rotl :: "'a::len word \<Rightarrow> nat \<Rightarrow> 'a word" where
  "rotl x s = (let r = s mod LENGTH('a)
               in if r = 0 then x else push_bit r x OR drop_bit (LENGTH('a) - r) x)"

text \<open>\<open>std::countr_zero\<close> and \<open>std::bit_width\<close> on a word, \<open>std::bit_width\<close> and
  \<open>std::bit_floor\<close> on a \<open>std::size_t\<close> (a natural number here).\<close>

definition countr_zero :: "'a::len word \<Rightarrow> nat" where
  "countr_zero w = length (takeWhile (\<lambda>k. \<not> bit w k) [0..<LENGTH('a)])"

definition bit_width :: "'a::len word \<Rightarrow> nat" where
  "bit_width w = LENGTH('a) - length (takeWhile (\<lambda>k. \<not> bit w k) (rev [0..<LENGTH('a)]))"

fun bit_width_size :: "nat \<Rightarrow> nat" where
  "bit_width_size x = (if x = 0 then 0 else Suc (bit_width_size (x div 2)))"

declare bit_width_size.simps [simp del]

definition bit_floor :: "nat \<Rightarrow> nat" where
  "bit_floor x = (if x = 0 then 0 else 2 ^ (bit_width_size x - 1))"

text \<open>\<open>static_cast<std::size_t>(-1)\<close> for a 64-bit \<open>std::size_t\<close>.\<close>

definition npos :: nat where
  "npos = 2 ^ 64 - 1"

section \<open>The xoshiro state\<close>

text \<open>The class \<open>xoshiro<N, T, A, B>\<close> holds \<open>std::array<T, N> m_state = {1}\<close>.\<close>

definition xoshiro_init :: "nat \<Rightarrow> 'a::len word list" where
  "xoshiro_init N = 1 # replicate (N - 1) 0"

definition xoshiro_get :: "'a::len word list \<Rightarrow> nat \<Rightarrow> 'a word" where
  "xoshiro_get m i = m ! i"

definition xoshiro_get_state :: "nat \<Rightarrow> 'a::len word list \<Rightarrow> 'a word list" where
  "xoshiro_get_state N m = map (xoshiro_get m) [0..<N]"

text \<open>\<open>seed(b, e)\<close> copies the words of the range over the front of \<open>m_state\<close>.\<close>

definition xoshiro_seed :: "'a::len word list \<Rightarrow> 'a word list \<Rightarrow> 'a word list" where
  "xoshiro_seed ws m = ws @ drop (length ws) m"

definition xoshiro_step4 :: "nat \<Rightarrow> nat \<Rightarrow> 'a::len word list \<Rightarrow> 'a word list" where
  "xoshiro_step4 A B m0 =
    (let tmp = push_bit A (m0 ! 1);
         m = m0[2 := m0 ! 2 XOR m0 ! 0];
         m = m[3 := m ! 3 XOR m ! 1];
         m = m[1 := m ! 1 XOR m ! 2];
         m = m[0 := m ! 0 XOR m ! 3];
         m = m[2 := m ! 2 XOR tmp];
         m = m[3 := rotl (m ! 3) B]
     in m)"

definition xoshiro_step8 :: "nat \<Rightarrow> nat \<Rightarrow> 'a::len word list \<Rightarrow> 'a word list" where
  "xoshiro_step8 A B m0 =
    (let tmp = push_bit A (m0 ! 1);
         m = m0[2 := m0 ! 2 XOR m0 ! 0];
         m = m[5 := m ! 5 XOR m ! 1];
         m = m[1 := m ! 1 XOR m ! 2];
         m = m[7 := m ! 7 XOR m ! 3];
         m = m[3 := m ! 3 XOR m ! 4];
         m = m[4 := m ! 4 XOR m ! 5];
         m = m[0 := m ! 0 XOR m ! 6];
         m = m[6 := m ! 6 XOR m ! 7];
         m = m[6 := m ! 6 XOR tmp];
         m = m[7 := rotl (m ! 7) B]
     in m)"

text \<open>\<open>step()\<close> exists for 4 and 8 words only; any other word count is rejected at build
  time by the \<open>static_assert\<close>, which is the value \<open>None\<close>.\<close>

definition xoshiro_step :: "nat \<Rightarrow> nat \<Rightarrow> nat \<Rightarrow> 'a::len word list \<Rightarrow> 'a word list option" where
  "xoshiro_step N A B m =
    (if N = 4 then Some (xoshiro_step4 A B m)
     else if N = 8 then Some (xoshiro_step8 A B m)
     else None)"

section \<open>The xoroshiro state\<close>

text \<open>The class \<open>xoroshiro<N, T, A, B, C>\<close> holds the array \<open>m_state = {1}\<close> and the
  ring-buffer position \<open>m_final = N - 1\<close> of the final word of state.\<close>

record 'w xoroshiro =
  m_state :: "'w list"
  m_final :: nat

definition xoroshiro_init :: "nat \<Rightarrow> 'a::len word xoroshiro" where
  "xoroshiro_init N = \<lparr>m_state = 1 # replicate (N - 1) 0, m_final = N - 1\<rparr>"

definition xoroshiro_get :: "nat \<Rightarrow> 'a::len word xoroshiro \<Rightarrow> nat \<Rightarrow> 'a word" where
  "xoroshiro_get N s i = m_state s ! ((i + m_final s + 1) mod N)"

definition xoroshiro_get_state :: "nat \<Rightarrow> 'a::len word xoroshiro \<Rightarrow> 'a word list" where
  "xoroshiro_get_state N s = map (xoroshiro_get N s) [0..<N]"

definition xoroshiro_seed :: "nat \<Rightarrow> 'a::len word list \<Rightarrow> 'a word xoroshiro \<Rightarrow> 'a word xoroshiro" where
  "xoroshiro_seed N ws s = \<lparr>m_state = ws @ drop (length ws) (m_state s), m_final = N - 1\<rparr>"

definition simple_step :: "nat \<Rightarrow> nat \<Rightarrow> nat \<Rightarrow> nat \<Rightarrow> 'a::len word xoroshiro \<Rightarrow> 'a word xoroshiro" where
  "simple_step N A B C s =
    (let m0 = m_state s;
         s0 = m0 ! 0;
         s1 = m0 ! (N - 1);
         m = fold (\<lambda>i m. m[i := m ! (i + 1)]) [0..<N - 2] m0;
         s1 = s1 XOR s0;
         m = m[N - 2 := rotl s0 A XOR push_bit B s1 XOR s1];
         m = m[N - 1 := rotl s1 C]
     in s\<lparr>m_state := m\<rparr>)"

definition clever_step :: "nat \<Rightarrow> nat \<Rightarrow> nat \<Rightarrow> nat \<Rightarrow> 'a::len word xoroshiro \<Rightarrow> 'a word xoroshiro" where
  "clever_step N A B C s =
    (let i_final = m_final s;
         i_first = (m_final s + 1) mod N;
         s_final = m_state s ! i_final;
         s_first = m_state s ! i_first;
         s_final = s_final XOR s_first;
         m = (m_state s)[i_final := rotl s_first A XOR push_bit B s_final XOR s_final];
         m = m[i_first := rotl s_final C]
     in \<lparr>m_state = m, m_final = i_first\<rparr>)"

definition xoroshiro_step :: "nat \<Rightarrow> nat \<Rightarrow> nat \<Rightarrow> nat \<Rightarrow> 'a::len word xoroshiro \<Rightarrow> 'a word xoroshiro" where
  "xoroshiro_step N A B C s = (if N = 2 then simple_step N A B C s else clever_step N A B C s)"

section \<open>Precomputed characteristic coefficients\<close>

datatype error = Invalid_argument string

text \<open>The template parameter \<open>T\<close> of a state class is any unsigned integral type.  The tables
  are selected by \<open>std::is_same_v<T, uint32_t>\<close> and \<open>std::is_same_v<T, uint64_t>\<close>, that is
  by the type itself and not by its width: an unsigned type of 32 or 64 bits that is not the
  type named \<open>uint32_t\<close> or \<open>uint64_t\<close> (where \<open>uint64_t\<close> is \<open>unsigned long\<close>, for instance
  \<open>unsigned long long\<close>) has no table.  So the type is a tag of its own, next to the words
  \<open>'a word\<close> that hold its values: \<open>'a\<close> has 32 bits for \<open>Uint32_t\<close>, 64 bits for \<open>Uint64_t\<close>,
  and \<open>Other_unsigned\<close> stands for every other unsigned integral type, of any width.\<close>

datatype word_type = Uint32_t | Uint64_t | Other_unsigned

text \<open>The function fills \<open>dst\<close> with the table or throws.\<close>

definition xoshiro_characteristic_coefficients ::
    "word_type \<Rightarrow> nat \<Rightarrow> nat \<Rightarrow> nat \<Rightarrow> error + 'a::len word list" where
  "xoshiro_characteristic_coefficients T N A B =
    (if T = Uint32_t \<and> N = 4 \<and> A = 9 \<and> B = 11 then
       Inr [0xde18fc01, 0x1b489db6, 0x6254b1, 0xfc65a2]
     else if T = Uint64_t \<and> N = 4 \<and> A = 17 \<and> B = 45 then
       Inr [0x9d116f2bb0f0f001, 0x280002bcefd1a5e, 0x4b4edcf26259f85, 0x3c03c3f3ecb19]
     else if T = Uint64_t \<and> N = 8 \<and> A = 11 \<and> B = 21 then
       Inr [0xcf3cff0c00000001, 0x7fdc78d886f00c63, 0xf05e63fca6d7b781, 0x7a67058e7bbab6f0,
            0xf11eef832e32518f, 0x51ba7c47edc758ad, 0x8f2d27268ce4b20b, 0x500055d8b77f]
     else
       Inl (Invalid_argument
         ''xoshiro characteristic polynomial not pre-computed for given parameters!''))"

definition xoroshiro_characteristic_coefficients ::
    "word_type \<Rightarrow> nat \<Rightarrow> nat \<Rightarrow> nat \<Rightarrow> nat \<Rightarrow> error + 'a::len word list" where
  "xoroshiro_characteristic_coefficients T N A B C =
    (if T = Uint32_t \<and> N = 2 \<and> A = 26 \<and> B = 9 \<and> C = 13 then
       Inr [0x6e2286c1, 0x53be9da]
     else if T = Uint64_t \<and> N = 2 \<and> A = 24 \<and> B = 16 \<and> C = 37 then
       Inr [0x95b8f76579aa001, 0x8828e513b43d5]
     else if T = Uint64_t \<and> N = 2 \<and> A = 49 \<and> B = 21 \<and> C = 28 then
       Inr [0x8dae70779760b081, 0x31bcf2f855d6e5]
     else if T = Uint64_t \<and> N = 16 \<and> A = 25 \<and> B = 27 \<and> C = 36 then
       Inr [0x5cfeb8cc48ddb211, 0xb73e379d035a06dd, 0x17d5100a20a0350e, 0x7550223f68f98cac,
            0x29d373b5c5ed3459, 0x3689b412ef70de48, 0xa1d3b6ee079a7cc6, 0x9bf0b669abd100f8,
            0x955c84e105f60997, 0x6ca140c61889cddd, 0xabaf68c5fc3a0e4a, 0xa46134526b83adc5,
            0x710704d05683d63, 0x580d080b44b606a2, 0x8040a0580158a1, 0x800081]
     else
       Inl (Invalid_argument
         ''xoroshiro characteristic polynomial not pre-computed for given parameters!''))"

section \<open>Polynomial reduction\<close>

subsection \<open>Riffling\<close>

text \<open>The word riffle: split \<open>src\<close> into halves and spread each half over the even bit
  positions.  The loop variable runs through \<open>W/4, W/8, \<dots>, 1\<close>.\<close>

function riffle_loop :: "nat \<Rightarrow> 'a::len word \<times> 'a word \<Rightarrow> 'a word \<times> 'a word" where
  "riffle_loop i (lo, hi) =
    (if i = 0 then (lo, hi)
     else
       let dv = push_bit i 1 OR 1;
           msk = (- 1) div dv
       in riffle_loop (i div 2) ((lo XOR push_bit i lo) AND msk, (hi XOR push_bit i hi) AND msk))"
  by pat_completeness auto
termination
  by (relation "measure fst") auto

declare riffle_loop.simps [simp del]

definition riffle_word :: "'a::len word \<Rightarrow> 'a word \<times> 'a word" where
  "riffle_word src =
    (let half_bits = LENGTH('a) div 2;
         lo = src AND drop_bit half_bits (- 1);
         hi = drop_bit half_bits src
     in riffle_loop (LENGTH('a) div 4) (lo, hi))"

text \<open>The array riffle as it is called by \<open>square_step\<close>, \<open>riffle(poly, poly, hi)\<close>: the source
  array is also the \<open>lo\<close> destination, so each \<open>src[i]\<close> is read from the array being written.
  The words are processed from index \<open>N - 1\<close> down to \<open>0\<close>.\<close>

definition riffle_at :: "nat \<Rightarrow> nat \<Rightarrow> 'a::len word list \<times> 'a word list
    \<Rightarrow> 'a word list \<times> 'a word list" where
  "riffle_at N i = (\<lambda>(poly, hi).
    (let (x, y) = riffle_word (poly ! i) in
     if 2 * i + 1 > N then (poly, hi[2 * i - N := x, 2 * i + 1 - N := y])
     else if 2 * i + 1 = N then (poly[N - 1 := x], hi[0 := y])
     else (poly[2 * i := x, 2 * i + 1 := y], hi)))"

definition riffle :: "nat \<Rightarrow> 'a::len word list \<times> 'a word list \<Rightarrow> 'a word list \<times> 'a word list" where
  "riffle N = fold (riffle_at N) (rev [0..<N])"

subsection \<open>The helper lambdas of \<open>reduce\<close>\<close>

definition test :: "'a::len word list \<Rightarrow> nat \<Rightarrow> bool" where
  "test poly i = (poly ! (i div LENGTH('a)) AND push_bit (i mod LENGTH('a)) 1 \<noteq> 0)"

definition set_coeff :: "'a::len word list \<Rightarrow> nat \<Rightarrow> 'a word list" where
  "set_coeff poly i =
     poly[i div LENGTH('a) := poly ! (i div LENGTH('a)) OR push_bit (i mod LENGTH('a)) 1]"

definition lsb :: "'a::len word \<Rightarrow> nat" where
  "lsb w = (if w = 0 then npos else countr_zero w)"

definition msb :: "'a::len word \<Rightarrow> nat" where
  "msb w = bit_width w - 1"

fun first_set_from :: "nat \<Rightarrow> 'a::len word list \<Rightarrow> nat" where
  "first_set_from i [] = npos"
| "first_set_from i (w # ws) =
     (if w \<noteq> 0 then i * LENGTH('a) + lsb w else first_set_from (i + 1) ws)"

definition first_set :: "'a::len word list \<Rightarrow> nat" where
  "first_set poly = first_set_from 0 poly"

text \<open>\<open>final_set\<close> walks the words from the last one down.\<close>

fun final_set_from :: "nat \<Rightarrow> 'a::len word list \<Rightarrow> nat" where
  "final_set_from 0 poly = npos"
| "final_set_from (Suc i) poly =
     (if poly ! i \<noteq> 0 then i * LENGTH('a) + msb (poly ! i) else final_set_from i poly)"

definition final_set :: "nat \<Rightarrow> 'a::len word list \<Rightarrow> nat" where
  "final_set N poly = final_set_from N poly"

definition monic :: "nat \<Rightarrow> 'a::len word list \<Rightarrow> bool" where
  "monic N poly = (poly ! (N - 1) AND push_bit (LENGTH('a) - 1) 1 \<noteq> 0)"

definition add :: "nat \<Rightarrow> 'a::len word list \<Rightarrow> 'a word list \<Rightarrow> 'a word list" where
  "add N lhs rhs = fold (\<lambda>i l. l[i := l ! i XOR rhs ! i]) [0..<N] lhs"

definition shift :: "nat \<Rightarrow> 'a::len word list \<Rightarrow> 'a word list" where
  "shift N poly =
    (let poly = fold (\<lambda>i q. q[i := push_bit 1 (q ! i) OR drop_bit (LENGTH('a) - 1) (q ! (i - 1))])
                  (rev [1..<N]) poly
     in poly[0 := push_bit 1 (poly ! 0)])"

definition times_x_step :: "nat \<Rightarrow> 'a::len word list \<Rightarrow> 'a word list \<Rightarrow> 'a word list" where
  "times_x_step N p poly =
    (let add_p = monic N poly;
         poly = shift N poly
     in if add_p then add N poly p else poly)"

text \<open>The table \<open>power_mod\<close> of \<open>n\<close> arrays: \<open>power_mod[0] = p\<close> and each later entry is the
  previous one after a \<open>times_x_step\<close>.\<close>

fun power_mod_upto :: "nat \<Rightarrow> 'a::len word list \<Rightarrow> nat \<Rightarrow> 'a word list list" where
  "power_mod_upto N p 0 = []"
| "power_mod_upto N p (Suc 0) = [p]"
| "power_mod_upto N p (Suc (Suc k)) =
     (let tab = power_mod_upto N p (Suc k) in tab @ [times_x_step N p (last tab)])"

definition power_mod :: "nat \<Rightarrow> 'a::len word list \<Rightarrow> 'a word list list" where
  "power_mod N p = power_mod_upto N p (N * LENGTH('a))"

text \<open>The loop \<open>for (i = hi_first; i <= hi_final; i += 2)\<close> of \<open>square_step\<close>.\<close>

function add_hi_loop :: "nat \<Rightarrow> 'a::len word list list \<Rightarrow> 'a word list \<Rightarrow> nat \<Rightarrow> nat
    \<Rightarrow> 'a word list \<Rightarrow> 'a word list" where
  "add_hi_loop N tab hi hi_final i poly =
    (if i \<le> hi_final
     then add_hi_loop N tab hi hi_final (i + 2) (if test hi i then add N poly (tab ! i) else poly)
     else poly)"
  by pat_completeness auto
termination
  by (relation "measure (\<lambda>(N, tab, hi, hi_final, i, poly). hi_final + 1 - i)") auto

declare add_hi_loop.simps [simp del]

text \<open>\<open>square_step\<close> works on the polynomial and on the work space \<open>hi\<close> of \<open>reduce\<close>.\<close>

definition square_step :: "nat \<Rightarrow> 'a::len word list list \<Rightarrow> 'a word list \<times> 'a word list
    \<Rightarrow> 'a word list \<times> 'a word list" where
  "square_step N tab = (\<lambda>(poly0, hi0).
    (let (poly, hi) = riffle N (poly0, hi0);
         hi_first = first_set hi
     in if hi_first \<noteq> npos
        then (add_hi_loop N tab hi (final_set N hi) hi_first poly, hi)
        else (poly, hi)))"

text \<open>The square and multiply loop \<open>while (J_bit) \<dots>\<close>.\<close>

function sqmul_loop :: "nat \<Rightarrow> 'a::len word list \<Rightarrow> 'a word list list \<Rightarrow> nat \<Rightarrow> nat
    \<Rightarrow> 'a word list \<times> 'a word list \<Rightarrow> 'a word list \<times> 'a word list" where
  "sqmul_loop N p tab J J_bit (r, hi) =
    (if J_bit \<noteq> 0 then
       (let (r, hi) = square_step N tab (r, hi);
            r = (if J AND J_bit \<noteq> 0 then times_x_step N p r else r)
        in sqmul_loop N p tab J (J_bit div 2) (r, hi))
     else (r, hi))"
  by pat_completeness auto
termination
  by (relation "measure (\<lambda>(N, p, tab, J, J_bit, rh). J_bit)") auto

declare sqmul_loop.simps [simp del]

text \<open>\<open>reduce(p, J, J_is_pow2)\<close>.  The local array \<open>hi\<close> is declared without an initial
  value; \<open>reduce_ws\<close> takes its initial content as an argument.\<close>

definition reduce_ws :: "nat \<Rightarrow> 'a::len word list \<Rightarrow> 'a word list \<Rightarrow> nat \<Rightarrow> bool \<Rightarrow> 'a word list" where
  "reduce_ws N hi0 p J J_is_pow2 =
    (let n = N * LENGTH('a);
         tab = power_mod N p;
         r = replicate N 0
     in if J_is_pow2 then fst ((square_step N tab ^^ J) (set_coeff r 1, hi0))
        else if J < n then set_coeff r J
        else if J = n then p
        else fst (sqmul_loop N p tab J (bit_floor J div 2) (set_coeff r 1, hi0)))"

definition reduce :: "nat \<Rightarrow> 'a::len word list \<Rightarrow> nat \<Rightarrow> bool \<Rightarrow> 'a word list" where
  "reduce N p J J_is_pow2 = reduce_ws N (replicate N 0) p J J_is_pow2"

section \<open>Jumping\<close>

text \<open>\<open>jump_coefficients<State>(N, N_is_pow2)\<close>: the coefficients come from the state type
  (and may fail), then \<open>reduce\<close> runs on them.\<close>

definition jump_coefficients :: "nat \<Rightarrow> error + 'a::len word list \<Rightarrow> nat \<Rightarrow> bool
    \<Rightarrow> error + 'a word list" where
  "jump_coefficients word_count cc J J_is_pow2 =
    (case cc of Inl e \<Rightarrow> Inl e | Inr p \<Rightarrow> Inr (reduce word_count p J J_is_pow2))"

text \<open>\<open>jump(state, jump_coeff)\<close> is a template over the state type, which provides
  \<open>word_count()\<close>, \<open>operator[]\<close>, \<open>step()\<close> and \<open>seed(b, e)\<close>; they are the arguments
  \<open>N\<close>, \<open>get\<close>, \<open>step\<close> and \<open>seed\<close>.\<close>

definition jump_bit :: "nat \<Rightarrow> ('s \<Rightarrow> nat \<Rightarrow> 'a::len word) \<Rightarrow> ('s \<Rightarrow> 's) \<Rightarrow> 'a word \<Rightarrow> nat
    \<Rightarrow> 'a word list \<times> 's \<Rightarrow> 'a word list \<times> 's" where
  "jump_bit N get step ji b = (\<lambda>(sm, state).
     ((if ji AND push_bit b 1 \<noteq> 0
       then fold (\<lambda>w sm. sm[w := sm ! w XOR get state w]) [0..<N] sm
       else sm),
      step state))"

definition jump_word :: "nat \<Rightarrow> ('s \<Rightarrow> nat \<Rightarrow> 'a::len word) \<Rightarrow> ('s \<Rightarrow> 's) \<Rightarrow> 'a word list \<Rightarrow> nat
    \<Rightarrow> 'a word list \<times> 's \<Rightarrow> 'a word list \<times> 's" where
  "jump_word N get step jump_coeff i =
     fold (jump_bit N get step (jump_coeff ! i)) [0..<LENGTH('a)]"

definition jump :: "nat \<Rightarrow> ('s \<Rightarrow> nat \<Rightarrow> 'a::len word) \<Rightarrow> ('s \<Rightarrow> 's) \<Rightarrow> ('a word list \<Rightarrow> 's \<Rightarrow> 's)
    \<Rightarrow> 's \<Rightarrow> 'a word list \<Rightarrow> 's" where
  "jump N get step seed state jump_coeff =
    (let (sm, state) = fold (jump_word N get step jump_coeff) [0..<N] (replicate N 0, state)
     in seed sm state)"

section \<open>Auxiliary notions for the proofs\<close>

text \<open>Componentwise XOR of two arrays.\<close>

definition vxor :: "'a::len word list \<Rightarrow> 'a word list \<Rightarrow> 'a word list" where
  "vxor a b = map2 (XOR) a b"

text \<open>The sum accumulated by \<open>jump\<close>: starting from \<open>acc\<close>, the vectors \<open>f k\<close> at the
  positions \<open>k < m\<close> selected by \<open>c\<close> are added in.\<close>

fun xacc :: "(nat \<Rightarrow> 'a::len word list) \<Rightarrow> (nat \<Rightarrow> bool) \<Rightarrow> nat \<Rightarrow> 'a word list \<Rightarrow> 'a word list" where
  "xacc f c 0 acc = acc"
| "xacc f c (Suc k) acc = (if c k then vxor (xacc f c k acc) (f k) else xacc f c k acc)"

text \<open>The words of a state as \<open>operator[]\<close> shows them.\<close>

definition view :: "nat \<Rightarrow> ('s \<Rightarrow> nat \<Rightarrow> 'a::len word) \<Rightarrow> 's \<Rightarrow> 'a word list" where
  "view N get st = map (get st) [0..<N]"

text \<open>The transition on the logical words.\<close>

definition xoroshiro_words_step :: "nat \<Rightarrow> nat \<Rightarrow> nat \<Rightarrow> nat \<Rightarrow> 'a::len word list \<Rightarrow> 'a word list" where
  "xoroshiro_words_step N A B C l =
     map (\<lambda>i. if i < N - 2 then l ! (i + 1)
               else if i = N - 2 then rotl (l ! 0) A XOR push_bit B (l ! (N - 1) XOR l ! 0) XOR (l ! (N - 1) XOR l ! 0)
               else rotl (l ! (N - 1) XOR l ! 0) C) [0..<N]"

definition ring_ok :: "nat \<Rightarrow> 'a::len word xoroshiro \<Rightarrow> bool" where
  "ring_ok N s = (length (m_state s) = N \<and> m_final s < N)"

text \<open>A state paired with a counter that every \<open>step()\<close> call increments.\<close>

definition counting_get :: "('s \<Rightarrow> nat \<Rightarrow> 'a::len word) \<Rightarrow> 's \<times> nat \<Rightarrow> nat \<Rightarrow> 'a word" where
  "counting_get get = (\<lambda>(s, c). get s)"

definition counting_step :: "('s \<Rightarrow> 's) \<Rightarrow> 's \<times> nat \<Rightarrow> 's \<times> nat" where
  "counting_step step = (\<lambda>(s, c). (step s, Suc c))"

definition counting_seed :: "('a::len word list \<Rightarrow> 's \<Rightarrow> 's) \<Rightarrow> 'a word list \<Rightarrow> 's \<times> nat \<Rightarrow> 's \<times> nat" where
  "counting_seed seed ws = (\<lambda>(s, c). (seed ws s, c))"

text \<open>A well-formed xoroshiro object: \<open>N\<close> words, the ring position inside the array, and
  for \<open>N = 2\<close> (where \<open>step()\<close> never moves it) at its initial value.\<close>

definition xoroshiro_ok :: "nat \<Rightarrow> 'a::len word xoroshiro \<Rightarrow> bool" where
  "xoroshiro_ok N s = (length (m_state s) = N \<and> m_final s < N \<and> (N = 2 \<longrightarrow> m_final s = N - 1))"

text \<open>A state type (\<open>get\<close>, \<open>step\<close>, \<open>seed\<close> on the objects satisfying \<open>ok\<close>) realises the
  transition \<open>T\<close> on arrays of \<open>N\<close> words when a step acts on the view as \<open>T\<close> and seeding
  makes the view equal to the seed.\<close>

definition state_model :: "nat \<Rightarrow> ('s \<Rightarrow> nat \<Rightarrow> 'a::len word) \<Rightarrow> ('s \<Rightarrow> 's) \<Rightarrow> ('a word list \<Rightarrow> 's \<Rightarrow> 's)
    \<Rightarrow> ('s \<Rightarrow> bool) \<Rightarrow> ('a word list \<Rightarrow> 'a word list) \<Rightarrow> bool" where
  "state_model N get step seed ok T \<longleftrightarrow>
     (\<forall>s. ok s \<longrightarrow> ok (step s) \<and> view N get (step s) = T (view N get s)) \<and>
     (\<forall>ws s. length ws = N \<longrightarrow> ok s \<longrightarrow> ok (seed ws s) \<and> view N get (seed ws s) = ws)"

text \<open>Linear maps on the arrays of \<open>N\<close> words.\<close>

definition lin :: "nat \<Rightarrow> ('a::len word list \<Rightarrow> 'a word list) \<Rightarrow> bool" where
  "lin N f \<longleftrightarrow> (\<forall>v. length v = N \<longrightarrow> length (f v) = N) \<and>
     (\<forall>u v. length u = N \<longrightarrow> length v = N \<longrightarrow> f (vxor u v) = vxor (f u) (f v))"

text \<open>The polynomial with coefficient predicate \<open>c\<close> (below \<open>m\<close>) evaluated at the map \<open>T\<close>
  and applied to \<open>v\<close>.\<close>

definition pev :: "nat \<Rightarrow> ('a::len word list \<Rightarrow> 'a word list) \<Rightarrow> (nat \<Rightarrow> bool) \<Rightarrow> nat \<Rightarrow> 'a word list \<Rightarrow> 'a word list" where
  "pev N T c m v = xacc (\<lambda>k. (T ^^ k) v) c m (replicate N 0)"

text \<open>The polynomial \<open>x^j\<close>.\<close>

definition unit_poly :: "nat \<Rightarrow> nat \<Rightarrow> 'a::len word list" where
  "unit_poly N j = set_coeff (replicate N 0) j"

text \<open>One round of the interleaving loop on one half.\<close>

definition spread1 :: "nat \<Rightarrow> 'a::len word \<Rightarrow> 'a word \<Rightarrow> 'a word" where
  "spread1 i msk y = (y XOR push_bit i y) AND msk"

definition lo_half :: "'a::len word \<Rightarrow> 'a word" where
  "lo_half src = src AND drop_bit (LENGTH('a) div 2) (- 1)"

definition hi_half :: "'a::len word \<Rightarrow> 'a word" where
  "hi_half src = drop_bit (LENGTH('a) div 2) src"

text \<open>The word riffle spreads the low half of the source over the even bit positions of
  \<open>lo\<close> and the high half over those of \<open>hi\<close>; this holds for an even word width.\<close>

definition interleaves :: "'a::len itself \<Rightarrow> bool" where
  "interleaves (_ :: 'a itself) \<longleftrightarrow> even LENGTH('a) \<and>
     (\<forall>src :: 'a word. \<forall>j<LENGTH('a).
        (bit (fst (riffle_word src)) j \<longleftrightarrow> even j \<and> bit src (j div 2)) \<and>
        (bit (snd (riffle_word src)) j \<longleftrightarrow> even j \<and> bit src (LENGTH('a) div 2 + j div 2)))"

text \<open>The packed polynomial \<open>r\<close> represents the exponent \<open>e\<close> for the map \<open>T\<close> when evaluating
  \<open>r\<close> at \<open>T\<close> gives \<open>T^e\<close> on every array of \<open>N\<close> words.\<close>

definition represents :: "nat \<Rightarrow> ('a::len word list \<Rightarrow> 'a word list) \<Rightarrow> 'a word list \<Rightarrow> nat \<Rightarrow> bool" where
  "represents N T r e \<longleftrightarrow> length r = N \<and>
     (\<forall>v. length v = N \<longrightarrow> pev N T (test r) (N * LENGTH('a)) v = (T ^^ e) v)"

text \<open>The specification of \<open>reduce\<close> speaks of polynomials over GF(2).  Here a polynomial is a
  natural number whose bit \<open>k\<close> is the coefficient of \<open>x^k\<close>; addition is \<open>XOR\<close> and the product
  with \<open>x^k\<close> is \<open>push_bit k\<close>.  The polynomial packed in an array of words, lowest coefficients
  first:\<close>

definition poly_of_words :: "'a::len word list \<Rightarrow> nat" where
  "poly_of_words ws = nat (horner_sum uint (2 ^ LENGTH('a)) ws)"

text \<open>Long division by a polynomial \<open>c\<close> of degree \<open>n\<close>: for a polynomial \<open>a\<close> of degree below
  \<open>n + k\<close>, the coefficients of \<open>x^(n+k-1)\<close> down to \<open>x^n\<close> are cancelled in turn by adding the
  multiple \<open>x^i c(x)\<close>; what is left is the remainder.  A nonzero polynomial \<open>c\<close> has degree
  \<open>bit_width_size c - 1\<close>.\<close>

primrec gf2_rem :: "nat \<Rightarrow> nat \<Rightarrow> nat \<Rightarrow> nat \<Rightarrow> nat" where
  "gf2_rem n c 0 a = a"
| "gf2_rem n c (Suc k) a = gf2_rem n c k (if bit a (n + k) then a XOR push_bit k c else a)"

definition gf2_mod :: "nat \<Rightarrow> nat \<Rightarrow> nat" where
  "gf2_mod a c = gf2_rem (bit_width_size c - 1) c (bit_width_size a - (bit_width_size c - 1)) a"

text \<open>The multiples of \<open>c\<close>: the sums of polynomials \<open>x^k c(x)\<close>.\<close>

inductive_set gf2_multiples :: "nat \<Rightarrow> nat set" for c :: nat where
  zero: "0 \<in> gf2_multiples c"
| add: "m \<in> gf2_multiples c \<Longrightarrow> m XOR push_bit k c \<in> gf2_multiples c"

text \<open>What the specification asks of \<open>reduce\<close>: \<open>x^J mod c(x)\<close>, respectively
  \<open>x^(2^J) mod c(x)\<close>, for \<open>c(x) = x^n + p(x)\<close>.\<close>

definition reduce_spec :: "nat \<Rightarrow> nat \<Rightarrow> nat \<Rightarrow> bool \<Rightarrow> nat" where
  "reduce_spec n p J J_is_pow2 = gf2_mod (2 ^ (if J_is_pow2 then 2 ^ J else J)) (2 ^ n + p)"

text \<open>The product of \<open>a\<close>, of degree below \<open>n\<close>, with \<open>x\<close> modulo \<open>c\<close>, of degree \<open>n\<close>.\<close>

definition gf2_mulx :: "nat \<Rightarrow> nat \<Rightarrow> nat \<Rightarrow> nat" where
  "gf2_mulx n c a = (if bit a (n - 1) then 2 * a XOR c else 2 * a)"

section \<open>Basic facts\<close>

lemma length_vxor [simp]: "length (vxor a b) = min (length a) (length b)"
  by (simp add: vxor_def)

lemma nth_vxor [simp]: "i < length a \<Longrightarrow> i < length b \<Longrightarrow> vxor a b ! i = a ! i XOR b ! i"
  by (simp add: vxor_def)

lemma fold_update_pointwise:
  assumes "k \<le> length l"
  shows "fold (\<lambda>i l. l[i := g i (l ! i)]) [0..<k] l = map (\<lambda>i. if i < k then g i (l ! i) else l ! i) [0..<length l]"
  using assms
proof (induction k)
  case 0
  show ?case by (simp add: map_nth)
next
  case (Suc k)
  then have IH: "fold (\<lambda>i l. l[i := g i (l ! i)]) [0..<k] l = map (\<lambda>i. if i < k then g i (l ! i) else l ! i) [0..<length l]"
    by simp
  show ?case
    apply (simp add: IH)
    apply (rule nth_equalityI)
    using Suc.prems apply (auto simp: nth_list_update less_Suc_eq)
    done
qed

lemma add_eq_vxor:
  assumes "length lhs = N" "length rhs = N"
  shows "add N lhs rhs = vxor lhs rhs"
proof -
  have "add N lhs rhs = map (\<lambda>i. if i < N then lhs ! i XOR rhs ! i else lhs ! i) [0..<length lhs]"
    unfolding add_def using fold_update_pointwise[of N lhs "\<lambda>i x. x XOR rhs ! i"] assms by simp
  also have "\<dots> = vxor lhs rhs"
    by (rule nth_equalityI) (use assms in auto)
  finally show ?thesis .
qed

lemma acc_eq_vxor:
  assumes "length sm = N"
  shows "fold (\<lambda>w sm. sm[w := sm ! w XOR get w]) [0..<N] sm = vxor sm (map get [0..<N])"
proof -
  have "fold (\<lambda>w sm. sm[w := sm ! w XOR get w]) [0..<N] sm
      = map (\<lambda>i. if i < N then sm ! i XOR get i else sm ! i) [0..<length sm]"
    using fold_update_pointwise[of N sm "\<lambda>i x. x XOR get i"] assms by simp
  also have "\<dots> = vxor sm (map get [0..<N])"
    by (rule nth_equalityI) (use assms in auto)
  finally show ?thesis .
qed

lemma length_xacc [simp]:
  "(\<And>k. k < m \<Longrightarrow> length (f k) = length acc) \<Longrightarrow> length (xacc f c m acc) = length acc"
  by (induction m) auto

lemma xacc_add:
  "xacc f c (m + k) acc = xacc (\<lambda>j. f (m + j)) (\<lambda>j. c (m + j)) k (xacc f c m acc)"
  by (induction k) auto

lemma xacc_cong:
  "(\<And>k. k < m \<Longrightarrow> f k = g k) \<Longrightarrow> (\<And>k. k < m \<Longrightarrow> c k = d k) \<Longrightarrow> xacc f c m acc = xacc g d m acc"
  by (induction m) auto

lemma and_mask_bit: "(w AND push_bit k 1 \<noteq> 0) = bit w k" for w :: "'a::len word"
  by (simp add: bit_iff_and_push_bit_not_eq_0)

lemma test_iff: "test poly i = bit (poly ! (i div LENGTH('a))) (i mod LENGTH('a))"
  for poly :: "'a::len word list"
  unfolding test_def by (rule and_mask_bit)

lemma length_view [simp]: "length (view N get st) = N"
  by (simp add: view_def)

lemma jump_bit_fold:
  fixes get :: "'s \<Rightarrow> nat \<Rightarrow> 'a::len word"
  assumes "length sm = N"
  shows "fold (jump_bit N get step ji) [0..<b] (sm, st)
       = (xacc (\<lambda>k. view N get ((step ^^ k) st)) (bit ji) b sm, (step ^^ b) st)"
proof (induction b)
  case 0
  show ?case by simp
next
  case (Suc b)
  let ?a = "xacc (\<lambda>k. view N get ((step ^^ k) st)) (bit ji) b sm"
  have len: "length ?a = N"
    using assms by simp
  have "fold (jump_bit N get step ji) [0..<Suc b] (sm, st)
      = jump_bit N get step ji b (?a, (step ^^ b) st)"
    by (simp add: Suc)
  also have "\<dots> = (xacc (\<lambda>k. view N get ((step ^^ k) st)) (bit ji) (Suc b) sm, (step ^^ Suc b) st)"
    unfolding jump_bit_def and_mask_bit
    by (simp add: acc_eq_vxor[OF len, of "get ((step ^^ b) st)"] view_def[symmetric])
  finally show ?case .
qed

lemma jump_word_fold:
  fixes get :: "'s \<Rightarrow> nat \<Rightarrow> 'a::len word"
  assumes "length sm = N"
  shows "fold (jump_word N get step r) [0..<i] (sm, st)
       = (xacc (\<lambda>k. view N get ((step ^^ k) st)) (test r) (i * LENGTH('a)) sm,
          (step ^^ (i * LENGTH('a))) st)"
proof (induction i)
  case 0
  show ?case by simp
next
  case (Suc i)
  let ?W = "LENGTH('a)"
  let ?F = "\<lambda>k. view N get ((step ^^ k) st)"
  let ?a = "xacc ?F (test r) (i * ?W) sm"
  have len: "length ?a = N"
    using assms by simp
  have "xacc ?F (test r) (i * ?W + ?W) sm
      = xacc (\<lambda>j. ?F (i * ?W + j)) (\<lambda>j. test r (i * ?W + j)) ?W ?a"
    by (rule xacc_add)
  also have "\<dots> = xacc (\<lambda>k. view N get ((step ^^ k) ((step ^^ (i * ?W)) st))) (bit (r ! i)) ?W ?a"
    by (rule xacc_cong) (simp_all add: test_iff funpow_add add.commute)
  finally have eq: "xacc ?F (test r) (Suc i * ?W) sm
      = xacc (\<lambda>k. view N get ((step ^^ k) ((step ^^ (i * ?W)) st))) (bit (r ! i)) ?W ?a"
    by (simp add: add.commute)
  have "fold (jump_word N get step r) [0..<Suc i] (sm, st)
      = jump_word N get step r i (?a, (step ^^ (i * ?W)) st)"
    by (simp add: Suc)
  also have "\<dots> = (xacc (\<lambda>k. view N get ((step ^^ k) ((step ^^ (i * ?W)) st))) (bit (r ! i)) ?W ?a,
                    (step ^^ ?W) ((step ^^ (i * ?W)) st))"
    unfolding jump_word_def by (rule jump_bit_fold[OF len])
  also have "\<dots> = (xacc ?F (test r) (Suc i * ?W) sm, (step ^^ (Suc i * ?W)) st)"
    by (simp only: eq) (simp add: funpow_add)
  finally show ?case .
qed

text \<open>What \<open>jump\<close> computes: the state is reseeded with the XOR of the views of the
  states \<open>step^k state\<close> at the set coefficients \<open>k\<close> of the jump polynomial.\<close>

lemma jump_eq:
  fixes get :: "'s \<Rightarrow> nat \<Rightarrow> 'a::len word"
  shows "jump N get step seed state r
       = seed (xacc (\<lambda>k. view N get ((step ^^ k) state)) (test r) (N * LENGTH('a)) (replicate N 0))
              ((step ^^ (N * LENGTH('a))) state)"
  by (simp add: jump_def jump_word_fold)

section \<open>The two realisations of the xoroshiro step\<close>

lemma fold_upt_Suc: "fold f [0..<Suc k] x = f k (fold f [0..<k] x)"
  by simp

lemma fold_shift_down:
  assumes "k < length l"
  shows "fold (\<lambda>i m. m[i := m ! (i + 1)]) [0..<k] l
       = map (\<lambda>i. if i < k then l ! (i + 1) else l ! i) [0..<length l]"
  using assms
proof (induction k)
  case 0
  show ?case by (simp add: map_nth)
next
  case (Suc k)
  define F where "F = (\<lambda>i (m :: 'a list). m[i := m ! (i + 1)])"
  have IH: "fold F [0..<k] l = map (\<lambda>i. if i < k then l ! (i + 1) else l ! i) [0..<length l]"
    unfolding F_def using Suc by simp
  have "fold F [0..<Suc k] l = F k (fold F [0..<k] l)"
    by (rule fold_upt_Suc)
  also have "\<dots> = (map (\<lambda>i. if i < k then l ! (i + 1) else l ! i) [0..<length l])
                  [k := (map (\<lambda>i. if i < k then l ! (i + 1) else l ! i) [0..<length l]) ! (k + 1)]"
    by (simp only: IH) (simp only: F_def)
  also have "\<dots> = map (\<lambda>i. if i < Suc k then l ! (i + 1) else l ! i) [0..<length l]"
    by (rule nth_equalityI) (use Suc.prems in \<open>auto simp: nth_list_update less_Suc_eq\<close>)
  finally show ?case unfolding F_def .
qed

lemma simple_step_words:
  assumes "2 \<le> N" "length (m_state s) = N"
  shows "m_state (simple_step N A B C s) = xoroshiro_words_step N A B C (m_state s)"
    and "m_final (simple_step N A B C s) = m_final s"
proof -
  let ?l = "m_state s"
  have k: "N - 2 < length ?l" using assms by simp
  let ?sh = "map (\<lambda>i. if i < N - 2 then ?l ! (i + 1) else ?l ! i) [0..<length ?l]"
  have "m_state (simple_step N A B C s)
      = ?sh[N - 2 := rotl (?l ! 0) A XOR push_bit B (?l ! (N - 1) XOR ?l ! 0) XOR (?l ! (N - 1) XOR ?l ! 0),
            N - 1 := rotl (?l ! (N - 1) XOR ?l ! 0) C]"
    unfolding simple_step_def Let_def fold_shift_down[OF k] by simp
  also have "\<dots> = xoroshiro_words_step N A B C ?l"
    unfolding xoroshiro_words_step_def
    by (rule nth_equalityI) (use assms in \<open>auto simp: nth_list_update\<close>)
  finally show "m_state (simple_step N A B C s) = xoroshiro_words_step N A B C (m_state s)" .
  show "m_final (simple_step N A B C s) = m_final s"
    by (simp add: simple_step_def Let_def)
qed

lemma view_simple:
  assumes "length (m_state s) = N" "m_final s = N - 1" "0 < N"
  shows "xoroshiro_get_state N s = m_state s"
proof (rule nth_equalityI)
  show "length (xoroshiro_get_state N s) = length (m_state s)"
    using assms by (simp add: xoroshiro_get_state_def)
next
  fix i assume "i < length (xoroshiro_get_state N s)"
  then have i: "i < N" by (simp add: xoroshiro_get_state_def)
  have "(i + (N - 1) + 1) mod N = i" using i by simp
  then show "xoroshiro_get_state N s ! i = m_state s ! i"
    using i assms(2) by (simp add: xoroshiro_get_state_def xoroshiro_get_def)
qed

lemma clever_step_ring_ok:
  assumes "ring_ok N s"
  shows "ring_ok N (clever_step N A B C s)"
  using assms by (auto simp: ring_ok_def clever_step_def Let_def)

lemma words_step_nth:
  "i < N \<Longrightarrow> xoroshiro_words_step N A B C l ! i =
     (if i < N - 2 then l ! (i + 1)
      else if i = N - 2 then rotl (l ! 0) A XOR push_bit B (l ! (N - 1) XOR l ! 0) XOR (l ! (N - 1) XOR l ! 0)
      else rotl (l ! (N - 1) XOR l ! 0) C)"
  by (simp add: xoroshiro_words_step_def)

lemma mod_add_cancel_nat:
  assumes "(a + c) mod N = (b + c) mod (N::nat)"
  shows "a mod N = b mod N"
proof -
  have "int ((a + c) mod N) = int ((b + c) mod N)" using assms by simp
  then have "(int a + int c) mod int N = (int b + int c) mod int N"
    by (simp add: zmod_int)
  then have "(int a + int c - int c) mod int N = (int b + int c - int c) mod int N"
    by (rule mod_diff_cong) simp
  then have "int (a mod N) = int (b mod N)"
    by (simp add: zmod_int)
  then show ?thesis by simp
qed

lemma clever_step_words:
  assumes "2 \<le> N" "ring_ok N s"
  shows "xoroshiro_get_state N (clever_step N A B C s)
       = xoroshiro_words_step N A B C (xoroshiro_get_state N s)"
proof (rule nth_equalityI)
  show "length (xoroshiro_get_state N (clever_step N A B C s))
      = length (xoroshiro_words_step N A B C (xoroshiro_get_state N s))"
    by (simp add: xoroshiro_get_state_def xoroshiro_words_step_def)
next
  fix i assume "i < length (xoroshiro_get_state N (clever_step N A B C s))"
  then have i: "i < N" by (simp add: xoroshiro_get_state_def)
  define m where "m = m_state s"
  define f where "f = m_final s"
  define g where "g = (f + 1) mod N"
  define X where "X = rotl (m ! g) A XOR push_bit B (m ! f XOR m ! g) XOR (m ! f XOR m ! g)"
  define Y where "Y = rotl (m ! f XOR m ! g) C"
  have f: "f < N" and len: "length m = N"
    using assms by (simp_all add: ring_ok_def f_def m_def)
  have g: "g < N" using assms by (simp add: g_def)
  have fg: "f \<noteq> g"
  proof (cases "f + 1 = N")
    case True
    then show ?thesis using assms f by (simp add: g_def)
  next
    case False
    then have "f + 1 < N" using f by simp
    then show ?thesis by (simp add: g_def)
  qed
  have cs: "clever_step N A B C s = \<lparr>m_state = m[f := X, g := Y], m_final = g\<rparr>"
    by (simp add: clever_step_def Let_def f_def g_def m_def X_def Y_def)
  have new: "xoroshiro_get_state N (clever_step N A B C s) ! i = m[f := X, g := Y] ! ((i + g + 1) mod N)"
    using i by (simp add: cs xoroshiro_get_state_def xoroshiro_get_def)
  have old: "xoroshiro_get_state N s ! j = m ! ((j + f + 1) mod N)" if "j < N" for j
    using that by (simp add: xoroshiro_get_state_def xoroshiro_get_def f_def m_def)
  have firstlog: "xoroshiro_get_state N s ! 0 = m ! g"
    using old[of 0] assms by (simp add: g_def)
  have lastlog: "xoroshiro_get_state N s ! (N - 1) = m ! f"
  proof -
    have "(N - 1 + f + 1) mod N = f" using f assms by simp
    then show ?thesis using old[of "N - 1"] assms by simp
  qed
  have ix: "(i + g + 1) mod N = (i + 2 + f) mod N"
  proof -
    have "(i + g + 1) mod N = ((i + 1) + (f + 1) mod N) mod N" by (simp add: g_def ac_simps)
    also have "\<dots> = ((i + 1) + (f + 1)) mod N" by (rule mod_add_right_eq)
    also have "(i + 1) + (f + 1) = i + 2 + f" by simp
    finally show ?thesis .
  qed
  have gmod: "g = (f + 1) mod N" by (rule g_def)
  consider "i < N - 2" | "i = N - 2" | "i = N - 1" using i by linarith
  then show "xoroshiro_get_state N (clever_step N A B C s) ! i
           = xoroshiro_words_step N A B C (xoroshiro_get_state N s) ! i"
  proof cases
    case 1
    define j where "j = (i + 2 + f) mod N"
    have j: "j < N" using assms by (simp add: j_def)
    have n1: "j \<noteq> f"
    proof
      assume "j = f"
      then have "(i + 2 + f) mod N = (0 + f) mod N" using f by (simp add: j_def)
      then have "(i + 2) mod N = 0 mod N"
        by (rule mod_add_cancel_nat)
      then show False using 1 by simp
    qed
    have n2: "j \<noteq> g"
    proof
      assume "j = g"
      then have "((i + 1) + (f + 1)) mod N = (0 + (f + 1)) mod N" by (simp add: j_def g_def)
      then have "(i + 1) mod N = 0 mod N"
        by (rule mod_add_cancel_nat)
      then show False using 1 by simp
    qed
    have "xoroshiro_get_state N (clever_step N A B C s) ! i = m ! j"
      unfolding new ix j_def[symmetric] using n1 n2 by simp
    moreover have "xoroshiro_words_step N A B C (xoroshiro_get_state N s) ! i = m ! j"
    proof -
      have "xoroshiro_words_step N A B C (xoroshiro_get_state N s) ! i = xoroshiro_get_state N s ! (i + 1)"
        using i 1 by (simp add: xoroshiro_words_step_def)
      also have "\<dots> = m ! ((i + 1 + f + 1) mod N)" using 1 by (intro old) simp
      also have "(i + 1 + f + 1) = i + 2 + f" by simp
      finally show ?thesis by (simp add: j_def)
    qed
    ultimately show ?thesis by simp
  next
    case 2
    have "(i + g + 1) mod N = f"
    proof -
      have "i + 2 + f = N + f" using 2 assms by simp
      then show ?thesis using ix f by simp
    qed
    then have "xoroshiro_get_state N (clever_step N A B C s) ! i = X"
      unfolding new using fg f len by simp
    moreover have "xoroshiro_words_step N A B C (xoroshiro_get_state N s) ! i = X"
    proof -
      have "\<not> i < N - 2" "i = N - 2" using 2 by simp_all
      then show ?thesis
        unfolding words_step_nth[OF i] firstlog lastlog X_def by simp
    qed
    ultimately show ?thesis by simp
  next
    case 3
    have "(i + g + 1) mod N = g"
    proof -
      have "(i + g + 1) mod N = (N + g) mod N" using 3 assms by simp
      then show ?thesis using g by simp
    qed
    then have "xoroshiro_get_state N (clever_step N A B C s) ! i = Y"
      unfolding new using g len by simp
    moreover have "xoroshiro_words_step N A B C (xoroshiro_get_state N s) ! i = Y"
    proof -
      have "\<not> i < N - 2" "i \<noteq> N - 2" using 3 assms by simp_all
      then show ?thesis
        unfolding words_step_nth[OF i] firstlog lastlog Y_def by simp
    qed
    ultimately show ?thesis by simp
  qed
qed

lemma length_words_step [simp]: "length (xoroshiro_words_step N A B C l) = N"
  by (simp add: xoroshiro_words_step_def)

lemma seed_ring_ok:
  assumes "length ws = N" "0 < N" "length (m_state s) = N"
  shows "ring_ok N (xoroshiro_seed N ws s)"
    and "xoroshiro_get_state N (xoroshiro_seed N ws s) = ws"
    and "m_state (xoroshiro_seed N ws s) = ws"
    and "m_final (xoroshiro_seed N ws s) = N - 1"
proof -
  show a: "m_state (xoroshiro_seed N ws s) = ws"
    using assms by (simp add: xoroshiro_seed_def)
  show b: "m_final (xoroshiro_seed N ws s) = N - 1"
    by (simp add: xoroshiro_seed_def)
  show "ring_ok N (xoroshiro_seed N ws s)"
    using assms by (simp add: ring_ok_def a b)
  show "xoroshiro_get_state N (xoroshiro_seed N ws s) = ws"
    using view_simple[of "xoroshiro_seed N ws s" N] assms by (simp add: a b)
qed

lemma clever_funpow:
  assumes "2 \<le> N" "ring_ok N s"
  shows "ring_ok N ((clever_step N A B C ^^ k) s)
       \<and> xoroshiro_get_state N ((clever_step N A B C ^^ k) s)
           = (xoroshiro_words_step N A B C ^^ k) (xoroshiro_get_state N s)"
proof (induction k)
  case 0
  show ?case using assms by simp
next
  case (Suc k)
  then show ?case
    using clever_step_words[OF assms(1), where s = "(clever_step N A B C ^^ k) s" and A = A and B = B and C = C]
      clever_step_ring_ok[where N = N and s = "(clever_step N A B C ^^ k) s" and A = A and B = B and C = C]
    by simp
qed

lemma simple_funpow:
  assumes "2 \<le> N" "length (m_state s) = N" "m_final s = N - 1"
  shows "length (m_state ((simple_step N A B C ^^ k) s)) = N
       \<and> m_final ((simple_step N A B C ^^ k) s) = N - 1
       \<and> xoroshiro_get_state N ((simple_step N A B C ^^ k) s)
           = (xoroshiro_words_step N A B C ^^ k) (xoroshiro_get_state N s)"
proof (induction k)
  case 0
  show ?case using assms by simp
next
  case (Suc k)
  let ?t = "(simple_step N A B C ^^ k) s"
  have len: "length (m_state ?t) = N" and fin: "m_final ?t = N - 1"
    and v: "xoroshiro_get_state N ?t = (xoroshiro_words_step N A B C ^^ k) (xoroshiro_get_state N s)"
    using Suc by simp_all
  have N0: "0 < N" using assms by simp
  have m: "m_state (simple_step N A B C ?t) = xoroshiro_words_step N A B C (m_state ?t)"
    and f: "m_final (simple_step N A B C ?t) = N - 1"
    using simple_step_words[OF assms(1) len, where A = A and B = B and C = C] fin by simp_all
  have len': "length (m_state (simple_step N A B C ?t)) = N" by (simp add: m)
  have "xoroshiro_get_state N (simple_step N A B C ?t) = m_state (simple_step N A B C ?t)"
    by (rule view_simple[OF len' f N0])
  also have "\<dots> = xoroshiro_words_step N A B C (xoroshiro_get_state N ?t)"
    by (simp add: m view_simple[OF len fin N0])
  finally show ?case using len' f v by simp
qed

section \<open>Counting the steps of a jump\<close>

lemma counting_funpow: "(counting_step step ^^ k) (s, c) = ((step ^^ k) s, c + k)"
  by (induction k) (simp_all add: counting_step_def)

lemma counting_view: "view N (counting_get get) (s, c) = view N get s"
  by (simp add: view_def counting_get_def)

lemma jump_counting:
  fixes get :: "'s \<Rightarrow> nat \<Rightarrow> 'a::len word"
  shows "jump N (counting_get get) (counting_step step) (counting_seed seed) (s, 0) r
       = (jump N get step seed s r, N * LENGTH('a))"
  unfolding jump_eq counting_funpow counting_view
  by (simp add: counting_seed_def)

lemma bit_width_one: "bit_width (1 :: 'a::len word) = 1"
proof -
  have r: "rev [0..<LENGTH('a)] = rev [1..<LENGTH('a)] @ [0]"
    by (metis len_gt_0 rev.simps(2) rev.simps(1) append_Nil upt_rec One_nat_def)
  have "takeWhile (\<lambda>k. \<not> bit (1 :: 'a word) k) (rev [1..<LENGTH('a)] @ [0]) = rev [1..<LENGTH('a)]"
  proof -
    have "takeWhile (\<lambda>k. \<not> bit (1 :: 'a word) k) (rev [1..<LENGTH('a)] @ [0])
        = rev [1..<LENGTH('a)] @ takeWhile (\<lambda>k. \<not> bit (1 :: 'a word) k) [0]"
      by (rule takeWhile_append2) (auto simp: bit_1_iff)
    then show ?thesis by (simp add: bit_1_iff)
  qed
  then have "length (takeWhile (\<lambda>k. \<not> bit (1 :: 'a word) k) (rev [0..<LENGTH('a)])) = LENGTH('a) - 1"
    unfolding r by simp
  then show ?thesis
    unfolding bit_width_def by (simp add: Suc_leI)
qed

lemma final_set_one: "final_set 2 [1, 0 :: 32 word] = 0"
  by (simp add: final_set_def numeral_2_eq_2 msb_def bit_width_one)

section \<open>Single coefficients\<close>

lemma vxor_zero_left [simp]: "length v = N \<Longrightarrow> vxor (replicate N 0) v = v"
  by (rule nth_equalityI) simp_all

lemma vxor_zero_right [simp]: "length v = N \<Longrightarrow> vxor v (replicate N 0) = v"
  by (rule nth_equalityI) simp_all

lemma xacc_none:
  "(\<And>k. k < m \<Longrightarrow> \<not> c k) \<Longrightarrow> xacc f c m acc = acc"
  by (induction m) auto

lemma xacc_single:
  assumes "j < m" "\<And>k. k < m \<Longrightarrow> c k \<longleftrightarrow> k = j"
  shows "xacc f c m acc = vxor acc (f j)"
  using assms
proof (induction m)
  case 0
  then show ?case by simp
next
  case (Suc m)
  show ?case
  proof (cases "j = m")
    case True
    have "xacc f c m acc = acc"
      by (rule xacc_none) (use Suc.prems True in auto)
    then show ?thesis using Suc.prems True by simp
  next
    case False
    then have "j < m" using Suc.prems by simp
    moreover have "\<And>k. k < m \<Longrightarrow> c k \<longleftrightarrow> k = j" using Suc.prems by simp
    ultimately have "xacc f c m acc = vxor acc (f j)" by (rule Suc.IH)
    moreover have "\<not> c m" using Suc.prems(2)[of m] False by simp
    ultimately show ?thesis by simp
  qed
qed

lemma test_set_coeff_zero:
  fixes j :: nat
  assumes "j < N * LENGTH('a)" "k < N * LENGTH('a)"
  shows "test (set_coeff (replicate N (0 :: 'a::len word)) j) k \<longleftrightarrow> k = j"
proof -
  let ?W = "LENGTH('a)"
  have jd: "j div ?W < N" and kd: "k div ?W < N"
    using assms by (simp_all add: less_mult_imp_div_less)
  have sc: "set_coeff (replicate N (0 :: 'a word)) j = (replicate N 0)[j div ?W := push_bit (j mod ?W) 1]"
    using jd by (simp add: set_coeff_def)
  show ?thesis
  proof (cases "k div ?W = j div ?W")
    case True
    have "bit (push_bit (j mod ?W) (1 :: 'a word)) (k mod ?W) \<longleftrightarrow> k mod ?W = j mod ?W"
      by (auto simp: bit_simps)
    moreover have "k mod ?W = j mod ?W \<longleftrightarrow> k = j"
      using True by (metis div_mult_mod_eq)
    ultimately show ?thesis
      unfolding test_iff sc using True jd by simp
  next
    case False
    then have "k \<noteq> j" by auto
    then show ?thesis
      unfolding test_iff sc using False kd by simp
  qed
qed

lemma reduce_pow2_zero: "reduce N p 0 True = set_coeff (replicate N 0) 1"
  by (simp add: reduce_def reduce_ws_def)

text \<open>A jump along a polynomial with the single coefficient \<open>j\<close>.\<close>

lemma jump_single:
  fixes get :: "'s \<Rightarrow> nat \<Rightarrow> 'a::len word"
  assumes "j < N * LENGTH('a)"
  shows "jump N get step seed state (set_coeff (replicate N 0) j)
       = seed (view N get ((step ^^ j) state)) ((step ^^ (N * LENGTH('a))) state)"
proof -
  have "xacc (\<lambda>k. view N get ((step ^^ k) state)) (test (set_coeff (replicate N (0 :: 'a word)) j))
          (N * LENGTH('a)) (replicate N 0)
      = vxor (replicate N 0) (view N get ((step ^^ j) state))"
    by (rule xacc_single[OF assms]) (rule test_set_coeff_zero[OF assms])
  then show ?thesis
    unfolding jump_eq by simp
qed

section \<open>State types as models of a transition on the logical words\<close>

lemma state_model_funpow:
  assumes "state_model N get step seed ok T" "ok s"
  shows "ok ((step ^^ k) s) \<and> view N get ((step ^^ k) s) = (T ^^ k) (view N get s)"
  using assms by (induction k) (auto simp: state_model_def)

lemma length_xacc_view:
  fixes get :: "'s \<Rightarrow> nat \<Rightarrow> 'a::len word"
  shows "length (xacc (\<lambda>k. view N get (g k)) c m (replicate N 0)) = N"
  using length_xacc[of m "\<lambda>k. view N get (g k)" "replicate N 0" c] by simp

lemma state_model_jump:
  fixes get :: "'s \<Rightarrow> nat \<Rightarrow> 'a::len word"
  assumes "state_model N get step seed ok T" "ok s"
  shows "ok (jump N get step seed s r)"
    and "view N get (jump N get step seed s r)
       = xacc (\<lambda>k. (T ^^ k) (view N get s)) (test r) (N * LENGTH('a)) (replicate N 0)"
proof -
  let ?acc = "xacc (\<lambda>k. view N get ((step ^^ k) s)) (test r) (N * LENGTH('a)) (replicate N 0)"
  let ?t = "(step ^^ (N * LENGTH('a))) s"
  have len: "length ?acc = N" by (rule length_xacc_view)
  have okt: "ok ?t" using state_model_funpow[OF assms] by simp
  have j: "jump N get step seed s r = seed ?acc ?t" by (rule jump_eq)
  show "ok (jump N get step seed s r)"
    unfolding j using assms(1) len okt by (simp add: state_model_def)
  have "view N get (jump N get step seed s r) = ?acc"
    unfolding j using assms(1) len okt by (simp add: state_model_def)
  also have "?acc = xacc (\<lambda>k. (T ^^ k) (view N get s)) (test r) (N * LENGTH('a)) (replicate N 0)"
    by (rule xacc_cong) (simp_all add: state_model_funpow[OF assms])
  finally show "view N get (jump N get step seed s r)
       = xacc (\<lambda>k. (T ^^ k) (view N get s)) (test r) (N * LENGTH('a)) (replicate N 0)" .
qed

subsection \<open>The xoshiro instances\<close>

lemma length_xoshiro_step4 [simp]: "length (xoshiro_step4 A B m) = length m"
  by (simp add: xoshiro_step4_def Let_def)

lemma length_xoshiro_step8 [simp]: "length (xoshiro_step8 A B m) = length m"
  by (simp add: xoshiro_step8_def Let_def)

lemma view_xoshiro: "length m = N \<Longrightarrow> view N xoshiro_get m = m"
  unfolding view_def xoshiro_get_def using map_nth[of m] by (simp add: map_nth)

lemma state_model_xoshiro4:
  "state_model 4 xoshiro_get (xoshiro_step4 A B) xoshiro_seed (\<lambda>m. length m = 4) (xoshiro_step4 A B)"
  unfolding state_model_def by (simp add: view_xoshiro xoshiro_seed_def)

lemma state_model_xoshiro8:
  "state_model 8 xoshiro_get (xoshiro_step8 A B) xoshiro_seed (\<lambda>m. length m = 8) (xoshiro_step8 A B)"
  unfolding state_model_def by (simp add: view_xoshiro xoshiro_seed_def)

subsection \<open>The xoroshiro instance\<close>

lemma view_xoroshiro: "view N (xoroshiro_get N) s = xoroshiro_get_state N s"
  by (simp add: view_def xoroshiro_get_state_def)

lemma xoroshiro_step_ok:
  assumes "2 \<le> N" "xoroshiro_ok N s"
  shows "xoroshiro_ok N (xoroshiro_step N A B C s)"
    and "xoroshiro_get_state N (xoroshiro_step N A B C s)
       = xoroshiro_words_step N A B C (xoroshiro_get_state N s)"
proof -
  have len: "length (m_state s) = N" and f: "m_final s < N"
    using assms by (simp_all add: xoroshiro_ok_def)
  have r: "ring_ok N s" using len f by (simp add: ring_ok_def)
  have N0: "0 < N" using assms by simp
  show "xoroshiro_ok N (xoroshiro_step N A B C s)"
  proof (cases "N = 2")
    case True
    then show ?thesis
      using assms simple_step_words[OF assms(1) len, where A = A and B = B and C = C]
      by (simp add: xoroshiro_step_def xoroshiro_ok_def)
  next
    case False
    then show ?thesis
      using clever_step_ring_ok[OF r, where A = A and B = B and C = C]
      by (simp add: xoroshiro_step_def xoroshiro_ok_def ring_ok_def)
  qed
  show "xoroshiro_get_state N (xoroshiro_step N A B C s)
       = xoroshiro_words_step N A B C (xoroshiro_get_state N s)"
  proof (cases "N = 2")
    case True
    then have fin: "m_final s = N - 1" using assms by (simp add: xoroshiro_ok_def)
    note w = simple_step_words[OF assms(1) len, where A = A and B = B and C = C]
    have len': "length (m_state (simple_step N A B C s)) = N" by (simp add: w)
    have "xoroshiro_get_state N (simple_step N A B C s) = m_state (simple_step N A B C s)"
      by (rule view_simple[OF len' _ N0]) (simp add: w fin)
    also have "\<dots> = xoroshiro_words_step N A B C (xoroshiro_get_state N s)"
      unfolding w view_simple[OF len fin N0] ..
    finally show ?thesis
      using True by (simp add: xoroshiro_step_def)
  next
    case False
    then show ?thesis
      using clever_step_words[OF assms(1) r] by (simp add: xoroshiro_step_def)
  qed
qed

lemma xoroshiro_seed_ok:
  assumes "0 < N" "length ws = N" "length (m_state s) = N"
  shows "xoroshiro_ok N (xoroshiro_seed N ws s)"
  using seed_ring_ok[OF assms(2) assms(1) assms(3)] assms
  by (auto simp: xoroshiro_ok_def ring_ok_def)

lemma state_model_xoroshiro:
  assumes "2 \<le> N"
  shows "state_model N (xoroshiro_get N) (xoroshiro_step N A B C) (xoroshiro_seed N) (xoroshiro_ok N)
           (xoroshiro_words_step N A B C)"
proof -
  have N0: "0 < N" using assms by simp
  have "xoroshiro_ok N (xoroshiro_seed N ws s) \<and> xoroshiro_get_state N (xoroshiro_seed N ws s) = ws"
    if "length ws = N" "xoroshiro_ok N s" for ws and s :: "'a word xoroshiro"
  proof -
    have len: "length (m_state s) = N" using that by (simp add: xoroshiro_ok_def)
    show ?thesis
      using xoroshiro_seed_ok[OF N0 that(1) len] seed_ring_ok(2)[OF that(1) N0 len] by simp
  qed
  then show ?thesis
    unfolding state_model_def view_xoroshiro
    using xoroshiro_step_ok[OF assms] by blast
qed

lemma state_model_length:
  assumes "state_model N get step seed ok T" "ok s"
  shows "length ((T ^^ k) (view N get s)) = N"
proof -
  have "length (view N get ((step ^^ k) s)) = N" by simp
  then show ?thesis using state_model_funpow[OF assms, of k] by simp
qed

lemma state_model_jump_single:
  fixes get :: "'s \<Rightarrow> nat \<Rightarrow> 'a::len word"
  assumes "state_model N get step seed ok T" "ok s" "j < N * LENGTH('a)"
  shows "view N get (jump N get step seed s (set_coeff (replicate N 0) j)) = (T ^^ j) (view N get s)"
proof -
  have "xacc (\<lambda>k. (T ^^ k) (view N get s)) (test (set_coeff (replicate N (0 :: 'a word)) j))
          (N * LENGTH('a)) (replicate N 0)
      = vxor (replicate N 0) ((T ^^ j) (view N get s))"
    by (rule xacc_single[OF assms(3)]) (rule test_set_coeff_zero[OF assms(3)])
  then show ?thesis
    unfolding state_model_jump(2)[OF assms(1,2)]
    by (simp add: state_model_length[OF assms(1,2)])
qed

lemma state_model_jump_funpow:
  fixes get :: "'s \<Rightarrow> nat \<Rightarrow> 'a::len word"
  assumes "state_model N get step seed ok T" "ok s"
    and "view N get (jump N get step seed s r) = (T ^^ e) (view N get s)"
  shows "view N get ((step ^^ k) (jump N get step seed s r)) = view N get ((step ^^ (k + e)) s)"
proof -
  have okj: "ok (jump N get step seed s r)" by (rule state_model_jump(1)[OF assms(1,2)])
  show ?thesis
    using state_model_funpow[OF assms(1) okj, of k] state_model_funpow[OF assms(1,2), of "k + e"]
    by (simp add: assms(3) funpow_add)
qed


text \<open>The coefficients for a jump of \<open>2^0\<close> steps are the polynomial \<open>x\<close>, whatever the table.\<close>

lemma jump_coefficients_pow2_zero:
  "jump_coefficients N (Inr p) 0 True = Inr (set_coeff (replicate N 0) 1)"
  by (simp add: jump_coefficients_def reduce_pow2_zero)

lemma jump_coefficients_pow2_zero_Inr:
  "jump_coefficients N cc 0 True = Inr r \<Longrightarrow> r = set_coeff (replicate N 0) 1"
  by (cases cc) (auto simp: jump_coefficients_def reduce_pow2_zero)

text \<open>A jump along the polynomial \<open>x\<close> is one step.\<close>

lemma xoshiro4_jump_x:
  fixes m :: "'a::len word list"
  assumes m: "length m = 4"
  shows "jump 4 xoshiro_get (xoshiro_step4 A B) xoshiro_seed m (set_coeff (replicate 4 0) 1)
       = xoshiro_step4 A B m"
proof -
  have one: "1 < 4 * LENGTH('a)" by (simp add: Suc_lessI)
  note sm = state_model_xoshiro4[where A = A and B = B and 'a = 'a]
  have "length (jump 4 xoshiro_get (xoshiro_step4 A B) xoshiro_seed m (set_coeff (replicate 4 0) 1)) = 4"
    using state_model_jump(1)[OF sm, of m] m by simp
  then have "jump 4 xoshiro_get (xoshiro_step4 A B) xoshiro_seed m (set_coeff (replicate 4 0) 1)
      = view 4 xoshiro_get (jump 4 xoshiro_get (xoshiro_step4 A B) xoshiro_seed m (set_coeff (replicate 4 0) 1))"
    by (simp add: view_xoshiro)
  also have "\<dots> = (xoshiro_step4 A B ^^ 1) (view 4 xoshiro_get m)"
    using state_model_jump_single[OF sm _ one, of m] m by simp
  finally show ?thesis using m by (simp add: view_xoshiro)
qed

lemma xoshiro8_jump_x:
  fixes m :: "'a::len word list"
  assumes m: "length m = 8"
  shows "jump 8 xoshiro_get (xoshiro_step8 A B) xoshiro_seed m (set_coeff (replicate 8 0) 1)
       = xoshiro_step8 A B m"
proof -
  have one: "1 < 8 * LENGTH('a)" by (simp add: Suc_lessI)
  note sm = state_model_xoshiro8[where A = A and B = B and 'a = 'a]
  have "length (jump 8 xoshiro_get (xoshiro_step8 A B) xoshiro_seed m (set_coeff (replicate 8 0) 1)) = 8"
    using state_model_jump(1)[OF sm, of m] m by simp
  then have "jump 8 xoshiro_get (xoshiro_step8 A B) xoshiro_seed m (set_coeff (replicate 8 0) 1)
      = view 8 xoshiro_get (jump 8 xoshiro_get (xoshiro_step8 A B) xoshiro_seed m (set_coeff (replicate 8 0) 1))"
    by (simp add: view_xoshiro)
  also have "\<dots> = (xoshiro_step8 A B ^^ 1) (view 8 xoshiro_get m)"
    using state_model_jump_single[OF sm _ one, of m] m by simp
  finally show ?thesis using m by (simp add: view_xoshiro)
qed

lemma xoroshiro_jump_x:
  fixes s :: "'a::len word xoroshiro"
  assumes N: "2 \<le> N" and ok: "xoroshiro_ok N s" and one: "1 < N * LENGTH('a)"
  shows "xoroshiro_get_state N ((xoroshiro_step N A B C ^^ k)
               (jump N (xoroshiro_get N) (xoroshiro_step N A B C) (xoroshiro_seed N) s
                  (set_coeff (replicate N 0) 1)))
          = xoroshiro_get_state N ((xoroshiro_step N A B C ^^ k) (xoroshiro_step N A B C s))"
proof -
  note sm = state_model_xoroshiro[OF N, where A = A and B = B and C = C and 'a = 'a]
  have v: "view N (xoroshiro_get N) (jump N (xoroshiro_get N) (xoroshiro_step N A B C) (xoroshiro_seed N) s
              (set_coeff (replicate N 0) 1))
         = (xoroshiro_words_step N A B C ^^ 1) (view N (xoroshiro_get N) s)"
    by (rule state_model_jump_single[OF sm ok one])
  show ?thesis
    using state_model_jump_funpow[OF sm ok v, of k]
    by (simp add: view_xoroshiro funpow_swap1)
qed
section \<open>Arrays of words as vectors over GF(2)\<close>

lemma vxor_commute: "vxor a b = vxor b a"
  by (rule nth_equalityI) (simp_all add: xor.commute)

lemma vxor_assoc: "vxor (vxor a b) c = vxor a (vxor b c)"
  by (rule nth_equalityI) (simp_all add: xor.assoc)

lemma vxor_left_commute: "vxor a (vxor b c) = vxor b (vxor a c)"
  by (rule nth_equalityI) (simp_all add: xor.left_commute)

lemmas vxor_ac = vxor_assoc vxor_commute vxor_left_commute

lemma vxor_self [simp]: "vxor a a = replicate (length a) 0"
  by (rule nth_equalityI) simp_all

lemma vxor_cancel_left [simp]: "length a = length b \<Longrightarrow> vxor a (vxor a b) = b"
  by (rule nth_equalityI) (simp_all add: xor.assoc[symmetric])

lemma linD1: "lin N f \<Longrightarrow> length v = N \<Longrightarrow> length (f v) = N"
  by (simp add: lin_def)

lemma linD2: "lin N f \<Longrightarrow> length u = N \<Longrightarrow> length v = N \<Longrightarrow> f (vxor u v) = vxor (f u) (f v)"
  by (simp add: lin_def)

lemma lin_zero: 
  assumes "lin N f"
  shows "f (replicate N 0) = replicate N 0"
proof -
  let ?z = "replicate N (0 :: 'a word)"
  have "f ?z = f (vxor ?z ?z)" by simp
  also have "\<dots> = vxor (f ?z) (f ?z)" by (rule linD2[OF assms]) simp_all
  also have "\<dots> = ?z" using linD1[OF assms, of ?z] by simp
  finally show ?thesis .
qed

lemma lin_funpow: "lin N f \<Longrightarrow> lin N (f ^^ k)"
proof (induction k)
  case 0
  show ?case by (simp add: lin_def)
next
  case (Suc k)
  then have k: "lin N (f ^^ k)" by simp
  show ?case
    unfolding lin_def using linD1[OF k] linD2[OF k] linD1[OF Suc.prems] linD2[OF Suc.prems] by simp
qed

lemma pev_0 [simp]: "pev N T c 0 v = replicate N 0"
  by (simp add: pev_def)

lemma pev_Suc: "pev N T c (Suc m) v = (if c m then vxor (pev N T c m v) ((T ^^ m) v) else pev N T c m v)"
  by (simp add: pev_def)

lemma length_pev [simp]:
  assumes "lin N T" "length v = N"
  shows "length (pev N T c m v) = N"
  by (induction m) (simp_all add: pev_Suc linD1[OF lin_funpow[OF assms(1)] assms(2)])

lemma lin_pev:
  assumes "lin N T"
  shows "lin N (pev N T c m)"
proof (induction m)
  case 0
  show ?case by (simp add: lin_def)
next
  case (Suc m)
  note Tm = lin_funpow[OF assms, of m]
  show ?case
    unfolding lin_def
  proof (intro conjI allI impI)
    fix v :: "'a word list" assume "length v = N"
    then show "length (pev N T c (Suc m) v) = N" using assms by simp
  next
    fix u v :: "'a word list" assume uv: "length u = N" "length v = N"
    show "pev N T c (Suc m) (vxor u v) = vxor (pev N T c (Suc m) u) (pev N T c (Suc m) v)"
      by (simp add: pev_Suc linD2[OF Suc uv] linD2[OF Tm uv] vxor_ac)
  qed
qed

lemma funpow_swap: "(f ^^ m) ((f ^^ j) v) = (f ^^ j) ((f ^^ m) v)"
proof -
  have "(f ^^ m) ((f ^^ j) v) = (f ^^ (m + j)) v" by (simp add: funpow_add)
  also have "\<dots> = (f ^^ (j + m)) v" by (simp add: add.commute)
  also have "\<dots> = (f ^^ j) ((f ^^ m) v)" by (simp add: funpow_add)
  finally show ?thesis .
qed

lemma funpow_pev_commute:
  assumes "lin N T" "length v = N"
  shows "pev N T c m ((T ^^ j) v) = (T ^^ j) (pev N T c m v)"
proof (induction m)
  case 0
  show ?case using lin_zero[OF lin_funpow[OF assms(1)]] by simp
next
  case (Suc m)
  note Tj = lin_funpow[OF assms(1), of j]
  have l1: "length (pev N T c m v) = N" using assms by simp
  have l2: "length ((T ^^ m) v) = N" using linD1[OF lin_funpow[OF assms(1)] assms(2)] .
  have sw: "(T ^^ m) ((T ^^ j) v) = (T ^^ j) ((T ^^ m) v)"
    by (rule funpow_swap)
  show ?case
    by (simp add: pev_Suc Suc sw linD2[OF Tj l1 l2])
qed

lemma pev_commute:
  assumes "lin N T" "length v = N"
  shows "pev N T c m (pev N T d m' v) = pev N T d m' (pev N T c m v)"
proof (induction m)
  case 0
  show ?case using lin_zero[OF lin_pev[OF assms(1)]] by simp
next
  case (Suc m)
  note D = lin_pev[OF assms(1), of d m']
  have l1: "length (pev N T c m v) = N" using assms by simp
  have l2: "length ((T ^^ m) v) = N" using linD1[OF lin_funpow[OF assms(1)] assms(2)] .
  show ?case
    by (simp add: pev_Suc Suc funpow_pev_commute[OF assms, symmetric] linD2[OF D l1 l2])
qed

text \<open>In characteristic 2 the square of a polynomial in \<open>T\<close> has the doubled exponents.\<close>

lemma pev_square:
  assumes "lin N T" "length v = N"
  shows "pev N T c m (pev N T c m v) = xacc (\<lambda>k. (T ^^ (2 * k)) v) c m (replicate N 0)"
  using assms(2)
proof (induction m arbitrary: v)
  case 0
  show ?case by simp
next
  case (Suc m)
  note A = lin_pev[OF assms(1), of c m]
  note Tm = lin_funpow[OF assms(1), of m]
  let ?a = "pev N T c m v"
  let ?t = "(T ^^ m) v"
  have la: "length ?a = N" using assms(1) Suc.prems by simp
  have lt: "length ?t = N" using linD1[OF Tm Suc.prems] .
  have laa: "length (pev N T c m ?a) = N" using assms(1) la by simp
  have ltt: "length ((T ^^ m) ?t) = N" using linD1[OF Tm lt] .
  have lat: "length ((T ^^ m) ?a) = N" using linD1[OF Tm la] .
  show ?case
  proof (cases "c m")
    case False
    then show ?thesis using Suc by (simp add: pev_Suc)
  next
    case True
    have "pev N T c (Suc m) (pev N T c (Suc m) v)
        = vxor (pev N T c m (vxor ?a ?t)) ((T ^^ m) (vxor ?a ?t))"
      using True by (simp add: pev_Suc)
    also have "\<dots> = vxor (vxor (pev N T c m ?a) (pev N T c m ?t)) (vxor ((T ^^ m) ?a) ((T ^^ m) ?t))"
      by (simp only: linD2[OF A la lt] linD2[OF Tm la lt])
    also have "pev N T c m ?t = (T ^^ m) ?a"
      by (rule funpow_pev_commute[OF assms(1) Suc.prems])
    also have "vxor (vxor (pev N T c m ?a) ((T ^^ m) ?a)) (vxor ((T ^^ m) ?a) ((T ^^ m) ?t))
        = vxor (pev N T c m ?a) ((T ^^ m) ?t)"
      by (rule nth_equalityI) (simp_all add: laa lat ltt xor.assoc)
    also have "(T ^^ m) ?t = (T ^^ (2 * m)) v"
      by (simp add: funpow_add mult_2)
    also have "pev N T c m ?a = xacc (\<lambda>k. (T ^^ (2 * k)) v) c m (replicate N 0)"
      by (rule Suc.IH[OF Suc.prems])
    finally show ?thesis using True by simp
  qed
qed

section \<open>Coefficients of packed polynomials\<close>

lemma div_less_words: "k < N * W \<Longrightarrow> k div W < (N::nat)"
  by (simp add: less_mult_imp_div_less)

lemma bits_ext:
  fixes u v :: "'a::len word list"
  assumes "length u = N" "length v = N" "\<And>k. k < N * LENGTH('a) \<Longrightarrow> test u k = test v k"
  shows "u = v"
proof (rule nth_equalityI)
  show "length u = length v" using assms by simp
next
  fix i assume "i < length u"
  then have i: "i < N" using assms by simp
  show "u ! i = v ! i"
  proof (rule bit_word_eqI)
    fix b assume b: "b < LENGTH('a)"
    have "i * LENGTH('a) + b < N * LENGTH('a)"
    proof -
      have "i * LENGTH('a) + b < i * LENGTH('a) + LENGTH('a)" using b by simp
      also have "\<dots> = (Suc i) * LENGTH('a)" by simp
      also have "\<dots> \<le> N * LENGTH('a)" using i by (intro mult_le_mono1) simp
      finally show ?thesis .
    qed
    from assms(3)[OF this] show "bit (u ! i) b = bit (v ! i) b"
      using b by (simp add: test_iff)
  qed
qed

lemma test_vxor:
  fixes u v :: "'a::len word list"
  assumes "length u = N" "length v = N" "k < N * LENGTH('a)"
  shows "test (vxor u v) k = (test u k \<noteq> test v k)"
  using assms div_less_words[OF assms(3)] by (simp add: test_iff bit_xor_iff)

lemma test_zero [simp]: "k < N * LENGTH('a) \<Longrightarrow> \<not> test (replicate N (0 :: 'a::len word)) k"
  using div_less_words[of k N "LENGTH('a)"] by (simp add: test_iff)

lemma length_set_coeff [simp]: "length (set_coeff r j) = length r"
  by (simp add: set_coeff_def)

lemma length_unit_poly [simp]: "length (unit_poly N j) = N"
  by (simp add: unit_poly_def)

lemma test_unit_poly:
  "j < N * LENGTH('a) \<Longrightarrow> k < N * LENGTH('a) \<Longrightarrow> test (unit_poly N j :: 'a::len word list) k \<longleftrightarrow> k = j"
  unfolding unit_poly_def by (rule test_set_coeff_zero)

subsection \<open>Multiplication by \<open>x\<close>\<close>

lemma fold_down:
  fixes g :: "nat \<Rightarrow> 'b \<Rightarrow> 'b \<Rightarrow> 'b"
  assumes "N \<le> length r"
  shows "fold (\<lambda>i q. q[i := g i (q ! i) (q ! (i - 1))]) (rev [1..<N]) r
       = map (\<lambda>i. if 1 \<le> i \<and> i < N then g i (r ! i) (r ! (i - 1)) else r ! i) [0..<length r]"
  using assms
proof (induction N arbitrary: r)
  case 0
  show ?case by (simp add: map_nth)
next
  case (Suc N)
  define F where "F = (\<lambda>i (q :: 'b list). q[i := g i (q ! i) (q ! (i - 1))])"
  show ?case
  proof (cases "N = 0")
    case True
    have "r = map (\<lambda>i. if 1 \<le> i \<and> i < Suc N then g i (r ! i) (r ! (i - 1)) else r ! i) [0..<length r]"
      by (rule nth_equalityI) (use True in auto)
    then show ?thesis using True by simp
  next
    case False
    then have N1: "1 \<le> N" by simp
    have up: "rev [1..<Suc N] = N # rev [1..<N]" using N1 by simp
    let ?r' = "r[N := g N (r ! N) (r ! (N - 1))]"
    have len: "N \<le> length ?r'" using Suc.prems by simp
    have "fold F (rev [1..<Suc N]) r = fold F (rev [1..<N]) ?r'"
      unfolding up by (simp add: F_def)
    also have "\<dots> = map (\<lambda>i. if 1 \<le> i \<and> i < N then g i (?r' ! i) (?r' ! (i - 1)) else ?r' ! i) [0..<length ?r']"
      unfolding F_def by (rule Suc.IH[OF len])
    also have "\<dots> = map (\<lambda>i. if 1 \<le> i \<and> i < Suc N then g i (r ! i) (r ! (i - 1)) else r ! i) [0..<length r]"
      by (rule nth_equalityI) (use Suc.prems N1 in \<open>auto simp: nth_list_update less_Suc_eq\<close>)
    finally show ?thesis unfolding F_def .
  qed
qed

lemma shift_nth:
  fixes poly :: "'a::len word list"
  assumes "length poly = N" "i < N"
  shows "shift N poly ! i = push_bit 1 (poly ! i) OR (if 0 < i then drop_bit (LENGTH('a) - 1) (poly ! (i - 1)) else 0)"
    and "length (shift N poly) = N"
proof -
  let ?g = "\<lambda>i (a :: 'a word) b. push_bit 1 a OR drop_bit (LENGTH('a) - 1) b"
  have le: "N \<le> length poly" using assms by simp
  have f: "fold (\<lambda>i q. q[i := ?g i (q ! i) (q ! (i - 1))]) (rev [1..<N]) poly
      = map (\<lambda>i. if 1 \<le> i \<and> i < N then ?g i (poly ! i) (poly ! (i - 1)) else poly ! i) [0..<length poly]"
    by (rule fold_down[OF le])
  show "length (shift N poly) = N"
    unfolding shift_def Let_def f using assms by simp
  show "shift N poly ! i = push_bit 1 (poly ! i) OR (if 0 < i then drop_bit (LENGTH('a) - 1) (poly ! (i - 1)) else 0)"
    unfolding shift_def Let_def f using assms by (cases "i = 0") (simp_all add: nth_list_update)
qed

lemma pred_div_mod:
  fixes k W :: nat
  assumes "0 < W" "0 < k"
  shows "k mod W \<noteq> 0 \<Longrightarrow> (k - 1) div W = k div W \<and> (k - 1) mod W = k mod W - 1"
    and "k mod W = 0 \<Longrightarrow> (k - 1) div W = k div W - 1 \<and> (k - 1) mod W = W - 1 \<and> 0 < k div W"
proof -
  assume r: "k mod W \<noteq> 0"
  have "k = k mod W + k div W * W" by simp
  then have e: "k - 1 = (k mod W - 1) + k div W * W" using r by linarith
  have lt: "k mod W - 1 < W" using assms(1) by (meson less_imp_diff_less mod_less_divisor)
  have "(k - 1) div W = k div W + (k mod W - 1) div W"
    by (subst e, subst div_mult_self1) (use assms in simp_all)
  moreover have "(k - 1) mod W = (k mod W - 1) mod W"
    by (subst e, subst mod_mult_self1) simp
  ultimately show "(k - 1) div W = k div W \<and> (k - 1) mod W = k mod W - 1"
    using lt by simp
next
  assume r: "k mod W = 0"
  then have kk: "k = k div W * W" by (simp add: mod_eq_0_iff_dvd)
  then have d: "0 < k div W" using assms(2) by (metis mult_0 neq0_conv)
  have "k div W * W = (k div W - 1) * W + W" using d by (simp add: diff_mult_distrib)
  then have e: "k - 1 = (W - 1) + (k div W - 1) * W" using kk assms(1) by linarith
  have lt: "W - 1 < W" using assms(1) by simp
  have "(k - 1) div W = (k div W - 1) + (W - 1) div W"
    by (subst e, subst div_mult_self1) (use assms in simp_all)
  moreover have "(k - 1) mod W = (W - 1) mod W"
    by (subst e, subst mod_mult_self1) simp
  ultimately show "(k - 1) div W = k div W - 1 \<and> (k - 1) mod W = W - 1 \<and> 0 < k div W"
    using lt d by simp
qed

lemma bit_shl_or:
  fixes a b :: "'a::len word"
  assumes "m \<le> LENGTH('a)" "j < LENGTH('a)"
  shows "bit (push_bit m a OR drop_bit (LENGTH('a) - m) b) j
       \<longleftrightarrow> (if j < m then bit b (LENGTH('a) - m + j) else bit a (j - m))"
  using assms by (auto simp: bit_simps dest: bit_imp_le_length)

lemma test_shift:
  fixes poly :: "'a::len word list"
  assumes "length poly = N" "k < N * LENGTH('a)"
  shows "test (shift N poly) k \<longleftrightarrow> 0 < k \<and> test poly (k - 1)"
proof -
  let ?W = "LENGTH('a)"
  have i: "k div ?W < N" using assms(2) by (rule div_less_words)
  have b: "k mod ?W < ?W" by simp
  have one: "1 \<le> ?W" by (simp add: Suc_leI)
  have pbm: "bit (push_bit m w) j \<longleftrightarrow> m \<le> j \<and> bit w (j - m)" if "j < ?W" for w :: "'a word" and j m
    using that by (auto simp: bit_push_bit_iff)
  note pb = pbm[where m = 1]
  show ?thesis
  proof (cases "k div ?W = 0")
    case True
    then have kW: "k < ?W" by (simp add: div_eq_0_iff)
    then have km: "k mod ?W = k" "(k - 1) div ?W = 0" "(k - 1) mod ?W = k - 1" by simp_all
    have "bit (shift N poly ! (k div ?W)) (k mod ?W) = bit (push_bit 1 (poly ! 0)) k"
      unfolding shift_nth(1)[OF assms(1) i] by (simp only: True km less_irrefl if_False or.right_neutral)
    also have "\<dots> \<longleftrightarrow> 0 < k \<and> bit (poly ! 0) (k - 1)"
      unfolding pb[OF kW] by (simp add: Suc_le_eq)
    finally show ?thesis
      unfolding test_iff km .
  next
    case d: False
    then have k0: "0 < k" by (metis div_0 neq0_conv)
    have sh: "shift N poly ! (k div ?W)
       = push_bit 1 (poly ! (k div ?W)) OR drop_bit (?W - 1) (poly ! (k div ?W - 1))"
      unfolding shift_nth(1)[OF assms(1) i] using d by simp
    show ?thesis
    proof (cases "k mod ?W = 0")
      case False
      have km: "(k - 1) div ?W = k div ?W" "(k - 1) mod ?W = k mod ?W - 1"
        using pred_div_mod(1)[of ?W k] False k0 by simp_all
      show ?thesis
        unfolding test_iff sh km bit_shl_or[OF one b]
        using False k0 by simp
    next
      case True
      have km: "(k - 1) div ?W = k div ?W - 1" "(k - 1) mod ?W = ?W - 1"
        using pred_div_mod(2)[of ?W k] True k0 by simp_all
      show ?thesis
        unfolding test_iff sh km bit_shl_or[OF one b]
        using True k0 by simp
    qed
  qed
qed

lemma last_index:
  assumes "0 < N" "0 < W"
  shows "(N * W - 1) div W = N - 1" "(N * W - 1) mod W = W - (1::nat)" "N * W - 1 < N * W"
proof -
  have p: "0 < N * W" using assms by simp
  have m: "(N * W) mod W = 0" by simp
  have d: "(N * W) div W = N" using assms by simp
  show "(N * W - 1) div W = N - 1" "(N * W - 1) mod W = W - 1"
    using pred_div_mod(2)[OF assms(2) p m] d by simp_all
  show "N * W - 1 < N * W" using p by simp
qed

lemma monic_iff:
  fixes poly :: "'a::len word list"
  assumes "0 < N"
  shows "monic N poly = test poly (N * LENGTH('a) - 1)"
  unfolding monic_def test_def using last_index(1,2)[OF assms, of "LENGTH('a)"] by simp

lemma length_add [simp]: "length (add N lhs rhs) = length lhs"
proof -
  have "length (fold (\<lambda>i l. l[i := l ! i XOR rhs ! i]) is lhs) = length lhs" for "is"
    by (induction "is" arbitrary: lhs) simp_all
  then show ?thesis by (simp add: add_def)
qed

lemma length_times_x_step [simp]:
  "length poly = N \<Longrightarrow> 0 < N \<Longrightarrow> length (times_x_step N p poly) = N"
  by (simp add: times_x_step_def Let_def shift_nth(2))

lemma test_times_x_step:
  fixes poly p :: "'a::len word list"
  assumes "length poly = N" "length p = N" "k < N * LENGTH('a)"
  shows "test (times_x_step N p poly) k
     \<longleftrightarrow> ((0 < k \<and> test poly (k - 1)) \<noteq> (test poly (N * LENGTH('a) - 1) \<and> test p k))"
proof -
  have N0: "0 < N" using assms(3) by (cases N) simp_all
  have ls: "length (shift N poly) = N" using shift_nth(2)[OF assms(1)] N0 by simp
  show ?thesis
    unfolding times_x_step_def Let_def monic_iff[OF N0]
    by (simp add: add_eq_vxor[OF ls assms(2)] test_vxor[OF ls assms(2,3)] test_shift[OF assms(1,3)])
qed

lemma lin_times_x_step:
  fixes p :: "'a::len word list"
  assumes "length p = N" "0 < N"
  shows "lin N (times_x_step N p)"
  unfolding lin_def
proof (intro conjI allI impI)
  fix v :: "'a word list" assume "length v = N"
  then show "length (times_x_step N p v) = N" using assms by simp
next
  fix u v :: "'a word list" assume uv: "length u = N" "length v = N"
  have luv: "length (vxor u v) = N" using uv by simp
  have nl: "N * LENGTH('a) - 1 < N * LENGTH('a)" using assms(2) by simp
  show "times_x_step N p (vxor u v) = vxor (times_x_step N p u) (times_x_step N p v)"
  proof (rule bits_ext[where N = N])
    fix k assume k: "k < N * LENGTH('a)"
    have k1: "k - 1 < N * LENGTH('a)" using k by simp
    have lu: "length (times_x_step N p u) = N" and lv: "length (times_x_step N p v) = N"
      using uv assms by simp_all
    show "test (times_x_step N p (vxor u v)) k
        = test (vxor (times_x_step N p u) (times_x_step N p v)) k"
      unfolding test_vxor[OF lu lv k] test_times_x_step[OF luv assms(1) k]
        test_times_x_step[OF uv(1) assms(1) k] test_times_x_step[OF uv(2) assms(1) k]
        test_vxor[OF uv k1] test_vxor[OF uv nl]
      by blast
  qed (use uv assms in simp_all)
qed

lemma times_x_unit:
  fixes p :: "'a::len word list"
  assumes "length p = N" "Suc j < N * LENGTH('a)"
  shows "times_x_step N p (unit_poly N j) = unit_poly N (Suc j)"
proof (rule bits_ext[where N = N])
  have N0: "0 < N" using assms(2) by (cases N) simp_all
  show "length (times_x_step N p (unit_poly N j :: 'a word list)) = N" using N0 by simp
  show "length (unit_poly N (Suc j) :: 'a word list) = N" by simp
  fix k assume k: "k < N * LENGTH('a)"
  have j: "j < N * LENGTH('a)" using assms(2) by simp
  have k1: "k - 1 < N * LENGTH('a)" using k by simp
  have nl: "N * LENGTH('a) - 1 < N * LENGTH('a)" using k by simp
  have lu: "length (unit_poly N j :: 'a word list) = N" by simp
  have "test (times_x_step N p (unit_poly N j)) k \<longleftrightarrow> (0 < k \<and> k - 1 = j)"
    unfolding test_times_x_step[OF lu assms(1) k] test_unit_poly[OF j k1] test_unit_poly[OF j nl]
    using assms(2) by auto
  also have "\<dots> \<longleftrightarrow> k = Suc j" by auto
  finally show "test (times_x_step N p (unit_poly N j)) k = test (unit_poly N (Suc j) :: 'a word list) k"
    by (simp add: test_unit_poly[OF assms(2) k])
qed

lemma times_x_top:
  fixes p :: "'a::len word list"
  assumes "length p = N" "0 < N"
  shows "times_x_step N p (unit_poly N (N * LENGTH('a) - 1)) = p"
proof (rule bits_ext[where N = N])
  show "length (times_x_step N p (unit_poly N (N * LENGTH('a) - 1) :: 'a word list)) = N"
    using assms by simp
  show "length p = N" by fact
  fix k assume k: "k < N * LENGTH('a)"
  have k1: "k - 1 < N * LENGTH('a)" using k by simp
  have nl: "N * LENGTH('a) - 1 < N * LENGTH('a)" using k by simp
  have lu: "length (unit_poly N (N * LENGTH('a) - 1) :: 'a word list) = N" by simp
  show "test (times_x_step N p (unit_poly N (N * LENGTH('a) - 1))) k = test p k"
    unfolding test_times_x_step[OF lu assms(1) k] test_unit_poly[OF nl k1] test_unit_poly[OF nl nl]
    using k by auto
qed

lemma times_x_funpow_unit:
  fixes p :: "'a::len word list"
  assumes "length p = N" "j < N * LENGTH('a)"
  shows "(times_x_step N p ^^ j) (unit_poly N 0) = unit_poly N j"
  using assms(2)
proof (induction j)
  case 0
  show ?case by simp
next
  case (Suc j)
  then have "(times_x_step N p ^^ j) (unit_poly N 0) = (unit_poly N j :: 'a word list)" by simp
  then show ?case
    using times_x_unit[OF assms(1) Suc.prems] by simp
qed

lemma times_x_funpow_n:
  fixes p :: "'a::len word list"
  assumes "length p = N" "0 < N"
  shows "(times_x_step N p ^^ (N * LENGTH('a))) (unit_poly N 0) = p"
proof -
  let ?n = "N * LENGTH('a)"
  have n: "?n = Suc (?n - 1)" using assms(2) by simp
  have "(times_x_step N p ^^ ?n) (unit_poly N 0)
      = times_x_step N p ((times_x_step N p ^^ (?n - 1)) (unit_poly N 0))"
    by (subst n) simp
  also have "\<dots> = times_x_step N p (unit_poly N (?n - 1))"
    using times_x_funpow_unit[OF assms(1), of "?n - 1"] assms(2) by simp
  also have "\<dots> = p" by (rule times_x_top[OF assms])
  finally show ?thesis .
qed

lemma power_mod_upto:
  "length (power_mod_upto N p k) = k
   \<and> (\<forall>i<k. power_mod_upto N p k ! i = (times_x_step N p ^^ i) p)"
proof (induction N p k rule: power_mod_upto.induct)
  case (1 N p)
  show ?case by simp
next
  case (2 N p)
  show ?case by simp
next
  case (3 N p k)
  let ?tab = "power_mod_upto N p (Suc k)"
  have len: "length ?tab = Suc k" and nth: "\<And>i. i < Suc k \<Longrightarrow> ?tab ! i = (times_x_step N p ^^ i) p"
    using 3 by simp_all
  have lst: "last ?tab = (times_x_step N p ^^ k) p"
    using len nth[of k] by (metis last_conv_nth length_0_conv nat.distinct(1) diff_Suc_1 lessI)
  show ?case
    using len nth lst by (auto simp: Let_def nth_append less_Suc_eq)
qed

lemma power_mod_nth:
  fixes p :: "'a::len word list"
  assumes "i < N * LENGTH('a)"
  shows "power_mod N p ! i = (times_x_step N p ^^ i) p"
    and "length (power_mod N p) = N * LENGTH('a)"
  using power_mod_upto[of N p "N * LENGTH('a)"] assms by (simp_all add: power_mod_def)

lemma all_less_numeral: "(\<forall>j<numeral k. P j) \<longleftrightarrow> P (pred_numeral k) \<and> (\<forall>j<pred_numeral k. P j)"
  by (metis less_Suc_eq numeral_eq_Suc)

lemma all_less_Suc0: "(\<forall>j<Suc 0. P j) \<longleftrightarrow> P 0"
  by auto

lemma bit_spread1:
  "bit (spread1 i msk y) j \<longleftrightarrow> bit msk j \<and> (bit y j \<noteq> (i \<le> j \<and> bit y (j - i)))"
  unfolding spread1_def by (auto simp: bit_and_iff bit_xor_iff bit_push_bit_iff dest: bit_imp_possible_bit)

lemma riffle_loop_unfold:
  "i \<noteq> 0 \<Longrightarrow> riffle_loop i (lo, hi) =
     riffle_loop (i div 2) (spread1 i ((- 1) div (push_bit i 1 OR 1)) lo, spread1 i ((- 1) div (push_bit i 1 OR 1)) hi)"
  by (subst riffle_loop.simps) (simp add: Let_def spread1_def)

lemma riffle_loop_0: "riffle_loop 0 (lo, hi) = (lo, hi)"
  by (subst riffle_loop.simps) simp

lemma bit_lo_half: "bit (lo_half src) j \<longleftrightarrow> bit src j \<and> j < LENGTH('a) - LENGTH('a) div 2"
  for src :: "'a::len word"
  unfolding lo_half_def by (auto simp: bit_and_iff bit_drop_bit_eq bit_simps dest: bit_imp_le_length)

lemma bit_hi_half: "bit (hi_half src) j \<longleftrightarrow> bit src (LENGTH('a) div 2 + j)"
  for src :: "'a::len word"
  unfolding hi_half_def by (simp add: bit_drop_bit_eq)

lemma riffle_word_alt:
  "riffle_word src = riffle_loop (LENGTH('a) div 4) (lo_half src, hi_half src)"
  for src :: "'a::len word"
  by (simp add: riffle_word_def Let_def lo_half_def hi_half_def)

lemma bit_beyond: "LENGTH('a) \<le> n \<Longrightarrow> bit (w :: 'a::len word) n \<longleftrightarrow> False"
  by (auto dest: bit_imp_le_length)

lemma m8: "(- 1 :: 8 word) div (push_bit 2 1 OR 1) = 0x33" "(- 1 :: 8 word) div (push_bit 1 1 OR 1) = 0x55"
  by simp_all

lemma riffle_word_8_eq:
  "riffle_word (src :: 8 word) = (spread1 1 0x55 (spread1 2 0x33 (lo_half src)), spread1 1 0x55 (spread1 2 0x33 (hi_half src)))"
  unfolding riffle_word_alt
  by (simp add: riffle_loop_unfold riffle_loop_0 m8 del: push_bit_of_1)

lemma riffle_word_8:
  "\<forall>j<8. (bit (fst (riffle_word (src :: 8 word))) j \<longleftrightarrow> even j \<and> bit src (j div 2))
        \<and> (bit (snd (riffle_word src)) j \<longleftrightarrow> even j \<and> bit src (4 + j div 2))"
  unfolding riffle_word_8_eq fst_conv snd_conv
  by (simp add: all_less_numeral all_less_Suc0 bit_spread1 bit_lo_half bit_hi_half bit_beyond)

lemma m16: "(- 1 :: 16 word) div (push_bit 4 1 OR 1) = 0xF0F" "(- 1 :: 16 word) div (push_bit 2 1 OR 1) = 0x3333" "(- 1 :: 16 word) div (push_bit 1 1 OR 1) = 0x5555"
  by simp_all

lemma riffle_word_16_eq:
  "riffle_word (src :: 16 word) = (spread1 1 0x5555 (spread1 2 0x3333 (spread1 4 0xF0F (lo_half src))), spread1 1 0x5555 (spread1 2 0x3333 (spread1 4 0xF0F (hi_half src))))"
  unfolding riffle_word_alt
  by (simp add: riffle_loop_unfold riffle_loop_0 m16 del: push_bit_of_1)

lemma riffle_word_16:
  "\<forall>j<16. (bit (fst (riffle_word (src :: 16 word))) j \<longleftrightarrow> even j \<and> bit src (j div 2))
        \<and> (bit (snd (riffle_word src)) j \<longleftrightarrow> even j \<and> bit src (8 + j div 2))"
  unfolding riffle_word_16_eq fst_conv snd_conv
  by (simp add: all_less_numeral all_less_Suc0 bit_spread1 bit_lo_half bit_hi_half bit_beyond)

lemma m32: "(- 1 :: 32 word) div (push_bit 8 1 OR 1) = 0xFF00FF" "(- 1 :: 32 word) div (push_bit 4 1 OR 1) = 0xF0F0F0F" "(- 1 :: 32 word) div (push_bit 2 1 OR 1) = 0x33333333" "(- 1 :: 32 word) div (push_bit 1 1 OR 1) = 0x55555555"
  by simp_all

lemma riffle_word_32_eq:
  "riffle_word (src :: 32 word) = (spread1 1 0x55555555 (spread1 2 0x33333333 (spread1 4 0xF0F0F0F (spread1 8 0xFF00FF (lo_half src)))), spread1 1 0x55555555 (spread1 2 0x33333333 (spread1 4 0xF0F0F0F (spread1 8 0xFF00FF (hi_half src)))))"
  unfolding riffle_word_alt
  by (simp add: riffle_loop_unfold riffle_loop_0 m32 del: push_bit_of_1)

lemma riffle_word_32:
  "\<forall>j<32. (bit (fst (riffle_word (src :: 32 word))) j \<longleftrightarrow> even j \<and> bit src (j div 2))
        \<and> (bit (snd (riffle_word src)) j \<longleftrightarrow> even j \<and> bit src (16 + j div 2))"
  unfolding riffle_word_32_eq fst_conv snd_conv
  by (simp add: all_less_numeral all_less_Suc0 bit_spread1 bit_lo_half bit_hi_half bit_beyond)

lemma m64: "(- 1 :: 64 word) div (push_bit 16 1 OR 1) = 0xFFFF0000FFFF" "(- 1 :: 64 word) div (push_bit 8 1 OR 1) = 0xFF00FF00FF00FF" "(- 1 :: 64 word) div (push_bit 4 1 OR 1) = 0xF0F0F0F0F0F0F0F" "(- 1 :: 64 word) div (push_bit 2 1 OR 1) = 0x3333333333333333" "(- 1 :: 64 word) div (push_bit 1 1 OR 1) = 0x5555555555555555"
  by simp_all

lemma riffle_word_64_eq:
  "riffle_word (src :: 64 word) = (spread1 1 0x5555555555555555 (spread1 2 0x3333333333333333 (spread1 4 0xF0F0F0F0F0F0F0F (spread1 8 0xFF00FF00FF00FF (spread1 16 0xFFFF0000FFFF (lo_half src))))), spread1 1 0x5555555555555555 (spread1 2 0x3333333333333333 (spread1 4 0xF0F0F0F0F0F0F0F (spread1 8 0xFF00FF00FF00FF (spread1 16 0xFFFF0000FFFF (hi_half src))))))"
  unfolding riffle_word_alt
  by (simp add: riffle_loop_unfold riffle_loop_0 m64 del: push_bit_of_1)

lemma riffle_word_64:
  "\<forall>j<64. (bit (fst (riffle_word (src :: 64 word))) j \<longleftrightarrow> even j \<and> bit src (j div 2))
        \<and> (bit (snd (riffle_word src)) j \<longleftrightarrow> even j \<and> bit src (32 + j div 2))"
  unfolding riffle_word_64_eq fst_conv snd_conv
  by (simp add: all_less_numeral all_less_Suc0 bit_spread1 bit_lo_half bit_hi_half bit_beyond)

section \<open>The array riffle\<close>

lemma riffle_at_join:
  fixes poly hi :: "'a::len word list"
  assumes "length poly = N" "length hi = N" "i < N"
  shows "case riffle_at N i (poly, hi) of (a, b) \<Rightarrow>
           length a = N \<and> length b = N \<and>
           a @ b = (poly @ hi)[2 * i := fst (riffle_word ((poly @ hi) ! i)),
                              2 * i + 1 := snd (riffle_word ((poly @ hi) ! i))]"
proof -
  obtain x y where xy: "riffle_word (poly ! i) = (x, y)" by (cases "riffle_word (poly ! i)")
  have pi: "(poly @ hi) ! i = poly ! i" using assms by (simp add: nth_append)
  consider "2 * i + 1 > N" | "2 * i + 1 = N" | "2 * i + 1 < N" by linarith
  then show ?thesis
  proof cases
    case 1
    then have "riffle_at N i (poly, hi) = (poly, hi[2 * i - N := x, 2 * i + 1 - N := y])"
      by (simp add: riffle_at_def xy)
    moreover have "poly @ hi[2 * i - N := x, 2 * i + 1 - N := y] = (poly @ hi)[2 * i := x, 2 * i + 1 := y]"
      using 1 assms by (simp add: list_update_append)
    ultimately show ?thesis using assms by (simp add: pi xy)
  next
    case 2
    then have "riffle_at N i (poly, hi) = (poly[N - 1 := x], hi[0 := y])"
      by (simp add: riffle_at_def xy)
    moreover have "N - 1 = 2 * i" using 2 by simp
    moreover have "poly[2 * i := x] @ hi[0 := y] = (poly @ hi)[2 * i := x, 2 * i + 1 := y]"
      using 2 assms by (simp add: list_update_append)
    ultimately show ?thesis using assms by (simp add: pi xy)
  next
    case 3
    then have "riffle_at N i (poly, hi) = (poly[2 * i := x, 2 * i + 1 := y], hi)"
      by (simp add: riffle_at_def xy)
    moreover have "poly[2 * i := x, 2 * i + 1 := y] @ hi = (poly @ hi)[2 * i := x, 2 * i + 1 := y]"
      using 3 assms by (simp add: list_update_append)
    ultimately show ?thesis using assms by (simp add: pi xy)
  qed
qed

lemma spread_fold:
  fixes f g :: "'b \<Rightarrow> 'b"
  assumes "2 * N \<le> length C" "i \<le> N"
  shows "foldr (\<lambda>i C. C[2 * i := f (C ! i), 2 * i + 1 := g (C ! i)]) [i..<N] C
       = map (\<lambda>w. if 2 * i \<le> w \<and> w < 2 * N then (if even w then f (C ! (w div 2)) else g (C ! (w div 2)))
                   else C ! w) [0..<length C]"
  using assms(2)
proof (induction "N - i" arbitrary: i)
  case 0
  then have "i = N" by simp
  moreover have "C = map (\<lambda>w. if 2 * N \<le> w \<and> w < 2 * N then (if even w then f (C ! (w div 2)) else g (C ! (w div 2)))
                   else C ! w) [0..<length C]"
    by (rule nth_equalityI) auto
  ultimately show ?case by simp
next
  case (Suc d)
  then have iN: "i < N" and d: "d = N - Suc i" and le: "Suc i \<le> N" by simp_all
  define F where "F = (\<lambda>i (C :: 'b list). C[2 * i := f (C ! i), 2 * i + 1 := g (C ! i)])"
  define D where "D = foldr F [Suc i..<N] C"
  have IH: "D = map (\<lambda>w. if 2 * Suc i \<le> w \<and> w < 2 * N then (if even w then f (C ! (w div 2)) else g (C ! (w div 2)))
                   else C ! w) [0..<length C]"
    unfolding D_def F_def by (rule Suc.hyps(1)[OF d le])
  have up: "[i..<N] = i # [Suc i..<N]" using iN by (simp add: upt_conv_Cons)
  have Di: "D ! i = C ! i"
    unfolding IH using assms(1) iN by simp
  have "foldr F [i..<N] C = F i D"
    unfolding up D_def by simp
  also have "\<dots> = D[2 * i := f (C ! i), 2 * i + 1 := g (C ! i)]"
    unfolding F_def Di ..
  also have "\<dots> = map (\<lambda>w. if 2 * i \<le> w \<and> w < 2 * N then (if even w then f (C ! (w div 2)) else g (C ! (w div 2)))
                   else C ! w) [0..<length C]"
  proof (rule nth_equalityI)
    show "length (D[2 * i := f (C ! i), 2 * i + 1 := g (C ! i)])
        = length (map (\<lambda>w. if 2 * i \<le> w \<and> w < 2 * N then (if even w then f (C ! (w div 2)) else g (C ! (w div 2)))
                   else C ! w) [0..<length C])"
      by (simp add: IH)
  next
    fix w assume "w < length (D[2 * i := f (C ! i), 2 * i + 1 := g (C ! i)])"
    then have w: "w < length C" and wD: "w < length D" by (simp_all add: IH)
    have Dw: "D ! w = (if 2 * Suc i \<le> w \<and> w < 2 * N then (if even w then f (C ! (w div 2)) else g (C ! (w div 2)))
                   else C ! w)"
      unfolding IH using w by simp
    have i2: "2 * i < length D" "2 * i + 1 < length D" using assms(1) iN by (simp_all add: IH)
    consider "w = 2 * i" | "w = 2 * i + 1" | "w < 2 * i" | "2 * Suc i \<le> w" by fastforce
    then show "D[2 * i := f (C ! i), 2 * i + 1 := g (C ! i)] ! w
        = map (\<lambda>w. if 2 * i \<le> w \<and> w < 2 * N then (if even w then f (C ! (w div 2)) else g (C ! (w div 2)))
                   else C ! w) [0..<length C] ! w"
    proof cases
      case 1
      then show ?thesis using w i2 iN by simp
    next
      case 2
      then show ?thesis using w i2 iN by simp
    next
      case 3
      then show ?thesis using w wD Dw by simp
    next
      case 4
      then show ?thesis using w wD Dw by simp
    qed
  qed
  finally show ?case unfolding F_def .
qed

lemma interleaves_8: "interleaves TYPE(8)"
  unfolding interleaves_def using riffle_word_8 by simp

lemma interleaves_16: "interleaves TYPE(16)"
  unfolding interleaves_def using riffle_word_16 by simp

lemma interleaves_32: "interleaves TYPE(32)"
  unfolding interleaves_def using riffle_word_32 by simp

lemma interleaves_64: "interleaves TYPE(64)"
  unfolding interleaves_def using riffle_word_64 by simp

lemma riffle_foldr:
  fixes poly hi :: "'a::len word list"
  assumes "length poly = N" "length hi = N" "i \<le> N"
  shows "case foldr (riffle_at N) [i..<N] (poly, hi) of (a, b) \<Rightarrow>
           length a = N \<and> length b = N \<and>
           a @ b = foldr (\<lambda>i C. C[2 * i := fst (riffle_word (C ! i)), 2 * i + 1 := snd (riffle_word (C ! i))])
                     [i..<N] (poly @ hi)"
  using assms(3)
proof (induction "N - i" arbitrary: i)
  case 0
  then show ?case using assms by simp
next
  case (Suc d)
  then have iN: "i < N" and d: "d = N - Suc i" and le: "Suc i \<le> N" by simp_all
  define F where "F = (\<lambda>i (C :: 'a word list). C[2 * i := fst (riffle_word (C ! i)), 2 * i + 1 := snd (riffle_word (C ! i))])"
  obtain a b where ab: "foldr (riffle_at N) [Suc i..<N] (poly, hi) = (a, b)"
    by (cases "foldr (riffle_at N) [Suc i..<N] (poly, hi)")
  have IH: "length a = N" "length b = N" "a @ b = foldr F [Suc i..<N] (poly @ hi)"
    using Suc.hyps(1)[OF d le] unfolding ab F_def by simp_all
  have up: "[i..<N] = i # [Suc i..<N]" using iN by (simp add: upt_conv_Cons)
  have l: "foldr (riffle_at N) [i..<N] (poly, hi) = riffle_at N i (a, b)"
    unfolding up by (simp add: ab)
  have r: "foldr F [i..<N] (poly @ hi) = F i (a @ b)"
    unfolding up by (simp add: IH(3))
  show ?case
    unfolding l F_def[symmetric] r
    using riffle_at_join[OF IH(1,2) iN] unfolding F_def by simp
qed

lemma riffle_join:
  fixes poly hi :: "'a::len word list"
  assumes "length poly = N" "length hi = N"
  shows "case riffle N (poly, hi) of (a, b) \<Rightarrow>
           length a = N \<and> length b = N \<and>
           a @ b = map (\<lambda>w. if even w then fst (riffle_word (poly ! (w div 2)))
                              else snd (riffle_word (poly ! (w div 2)))) [0..<2 * N]"
proof -
  have fr: "riffle N (poly, hi) = foldr (riffle_at N) [0..<N] (poly, hi)"
    by (simp add: riffle_def foldr_conv_fold)
  have len: "2 * N \<le> length (poly @ hi)" using assms by simp
  have "foldr (\<lambda>i C. C[2 * i := fst (riffle_word (C ! i)), 2 * i + 1 := snd (riffle_word (C ! i))])
              [0..<N] (poly @ hi)
          = map (\<lambda>w. if 2 * 0 \<le> w \<and> w < 2 * N
                       then (if even w then fst (riffle_word ((poly @ hi) ! (w div 2)))
                             else snd (riffle_word ((poly @ hi) ! (w div 2))))
                       else (poly @ hi) ! w) [0..<length (poly @ hi)]"
    by (rule spread_fold[where f = "\<lambda>x. fst (riffle_word x)" and g = "\<lambda>x. snd (riffle_word x)", OF len]) simp
  also have "\<dots> = map (\<lambda>w. if even w then fst (riffle_word (poly ! (w div 2)))
                              else snd (riffle_word (poly ! (w div 2)))) [0..<2 * N]"
    by (rule nth_equalityI) (use assms in \<open>auto simp: nth_append\<close>)
  finally have sp: "foldr (\<lambda>i C. C[2 * i := fst (riffle_word (C ! i)), 2 * i + 1 := snd (riffle_word (C ! i))])
              [0..<N] (poly @ hi)
          = map (\<lambda>w. if even w then fst (riffle_word (poly ! (w div 2)))
                              else snd (riffle_word (poly ! (w div 2)))) [0..<2 * N]" .
  show ?thesis
    unfolding fr using riffle_foldr[OF assms, of 0] unfolding sp by simp
qed

lemma test_append_left:
  fixes a b :: "'a::len word list"
  shows "k < length a * LENGTH('a) \<Longrightarrow> test (a @ b) k = test a k"
  using div_less_words[of k "length a" "LENGTH('a)"] by (simp add: test_iff nth_append)

lemma test_append_right:
  fixes a b :: "'a::len word list"
  shows "test (a @ b) (length a * LENGTH('a) + k) = test b k"
proof -
  have "(length a * LENGTH('a) + k) div LENGTH('a) = length a + k div LENGTH('a)"
    by (simp add: add.commute)
  moreover have "(length a * LENGTH('a) + k) mod LENGTH('a) = k mod LENGTH('a)"
    by (simp add: add.commute)
  ultimately show ?thesis by (simp add: test_iff nth_append)
qed

lemma riffle_bits:
  fixes poly hi :: "'a::len word list"
  assumes "interleaves TYPE('a)" "length poly = N" "length hi = N" "riffle N (poly, hi) = (a, b)"
  shows "length a = N" "length b = N"
    and "\<And>k. k < N * LENGTH('a) \<Longrightarrow> test a k \<longleftrightarrow> even k \<and> test poly (k div 2)"
    and "\<And>k. k < N * LENGTH('a) \<Longrightarrow> test b k \<longleftrightarrow> even k \<and> test poly ((N * LENGTH('a) + k) div 2)"
proof -
  let ?W = "LENGTH('a)"
  let ?C = "map (\<lambda>w. if even w then fst (riffle_word (poly ! (w div 2)))
                              else snd (riffle_word (poly ! (w div 2)))) [0..<2 * N]"
  have evW: "even ?W" and iw: "\<And>(src :: 'a word) j. j < ?W \<Longrightarrow>
        (bit (fst (riffle_word src)) j \<longleftrightarrow> even j \<and> bit src (j div 2)) \<and>
        (bit (snd (riffle_word src)) j \<longleftrightarrow> even j \<and> bit src (?W div 2 + j div 2))"
    using assms(1) by (simp_all add: interleaves_def)
  have la: "length a = N" and lb: "length b = N" and ab: "a @ b = ?C"
    using riffle_join[OF assms(2,3)] unfolding assms(4) by simp_all
  show "length a = N" "length b = N" by (rule la, rule lb)
  have C: "test ?C J \<longleftrightarrow> even J \<and> test poly (J div 2)" if J: "J < 2 * N * ?W" for J
  proof -
    define w where "w = J div ?W"
    define c where "c = J mod ?W"
    have w: "w < 2 * N" using J unfolding w_def by (rule div_less_words)
    have c: "c < ?W" unfolding c_def by simp
    have Jwc: "J = w * ?W + c" by (simp add: w_def c_def)
    obtain h where h: "?W = 2 * h" using evW by (elim evenE)
    have h0: "0 < h" using h by (metis len_gt_0 mult_0_right neq0_conv)
    have evJ: "even J \<longleftrightarrow> even c" unfolding Jwc using evW by simp
    have ch: "c div 2 < h" using c h by simp
    show ?thesis
    proof (cases "even w")
      case True
      then obtain t where t: "w = 2 * t" by (elim evenE)
      have "J div 2 = t * ?W + c div 2"
      proof -
        have "J = 2 * (t * ?W) + c" unfolding Jwc t by simp
        then show ?thesis by simp
      qed
      moreover have "c div 2 < ?W" using c by simp
      ultimately have dm: "(J div 2) div ?W = t" "(J div 2) mod ?W = c div 2"
        by simp_all
      have "test ?C J = bit (fst (riffle_word (poly ! t))) c"
        using w True t by (simp add: test_iff w_def[symmetric] c_def[symmetric])
      also have "\<dots> \<longleftrightarrow> even c \<and> bit (poly ! t) (c div 2)" using iw[OF c] by simp
      finally show ?thesis by (simp add: evJ test_iff dm)
    next
      case False
      then obtain t where t: "w = 2 * t + 1" by (elim oddE)
      have "J div 2 = t * ?W + (h + c div 2)"
      proof -
        have "J = 2 * (t * ?W + h) + c" unfolding Jwc t h by (simp add: algebra_simps)
        then show ?thesis by simp
      qed
      moreover have "h + c div 2 < ?W" using ch h by simp
      ultimately have dm: "(J div 2) div ?W = t" "(J div 2) mod ?W = h + c div 2"
        by simp_all
      have hh: "?W div 2 = h" using h by simp
      have "test ?C J = bit (snd (riffle_word (poly ! t))) c"
        using w False t by (simp add: test_iff w_def[symmetric] c_def[symmetric])
      also have "\<dots> \<longleftrightarrow> even c \<and> bit (poly ! t) (h + c div 2)" using iw[OF c] hh by simp
      finally show ?thesis by (simp add: evJ test_iff dm)
    qed
  qed
  show "test a k \<longleftrightarrow> even k \<and> test poly (k div 2)" if k: "k < N * ?W" for k
  proof -
    have "test a k = test (a @ b) k" using test_append_left[of k a b] k la by simp
    also have "\<dots> \<longleftrightarrow> even k \<and> test poly (k div 2)" unfolding ab using k by (intro C) simp
    finally show ?thesis .
  qed
  show "test b k \<longleftrightarrow> even k \<and> test poly ((N * ?W + k) div 2)" if k: "k < N * ?W" for k
  proof -
    have "test b k = test (a @ b) (N * ?W + k)" using test_append_right[of a b k] la by simp
    also have "\<dots> \<longleftrightarrow> even (N * ?W + k) \<and> test poly ((N * ?W + k) div 2)"
      unfolding ab using k by (intro C) simp
    finally show ?thesis using evW by simp
  qed
qed

section \<open>First and final set coefficients\<close>

lemma word_nonzero_bit: "w \<noteq> 0 \<Longrightarrow> \<exists>k<LENGTH('a). bit w k" for w :: "'a::len word"
proof (rule ccontr)
  assume w: "w \<noteq> 0" and "\<not> (\<exists>k<LENGTH('a). bit w k)"
  then have "w = 0" by (intro bit_word_eqI) simp
  then show False using w by simp
qed

lemma takeWhile_props:
  assumes "\<exists>x\<in>set xs. \<not> P x"
  shows "length (takeWhile P xs) < length xs"
    and "\<not> P (xs ! length (takeWhile P xs))"
    and "\<And>j. j < length (takeWhile P xs) \<Longrightarrow> P (xs ! j)"
proof -
  show l: "length (takeWhile P xs) < length xs"
    using assms by (induction xs) auto
  show "\<not> P (xs ! length (takeWhile P xs))"
    using l by (rule nth_length_takeWhile)
  show "P (xs ! j)" if "j < length (takeWhile P xs)" for j
    using that by (metis nth_mem set_takeWhileD takeWhile_nth)
qed

lemma countr_zero_props:
  fixes w :: "'a::len word"
  assumes "w \<noteq> 0"
  shows "countr_zero w < LENGTH('a)" "bit w (countr_zero w)" "\<And>k. k < countr_zero w \<Longrightarrow> \<not> bit w k"
proof -
  obtain k0 where k0: "k0 < LENGTH('a)" "bit w k0" using word_nonzero_bit[OF assms] by blast
  then have ex: "\<exists>x\<in>set [0..<LENGTH('a)]. \<not> \<not> bit w x" by auto
  note t = takeWhile_props[OF ex]
  show c: "countr_zero w < LENGTH('a)" using t(1) by (simp add: countr_zero_def)
  show "bit w (countr_zero w)" using t(2) c by (simp add: countr_zero_def)
  show "\<not> bit w k" if "k < countr_zero w" for k
    using t(3)[of k] that c by (simp add: countr_zero_def)
qed

lemma msb_props:
  fixes w :: "'a::len word"
  assumes "w \<noteq> 0"
  shows "msb w < LENGTH('a)" "bit w (msb w)" "\<And>k. msb w < k \<Longrightarrow> \<not> bit w k"
proof -
  let ?W = "LENGTH('a)"
  let ?xs = "rev [0..<?W]"
  let ?c = "length (takeWhile (\<lambda>k. \<not> bit w k) ?xs)"
  obtain k0 where k0: "k0 < ?W" "bit w k0" using word_nonzero_bit[OF assms] by blast
  then have ex: "\<exists>x\<in>set ?xs. \<not> \<not> bit w x" by auto
  note t = takeWhile_props[OF ex]
  have c: "?c < ?W" using t(1) by simp
  have nth: "?xs ! j = ?W - 1 - j" if "j < ?W" for j
    using that by (simp add: rev_nth)
  have m: "msb w = ?W - 1 - ?c" by (simp add: msb_def bit_width_def)
  show "msb w < ?W" unfolding m by simp
  show "bit w (msb w)" using t(2) unfolding m nth[OF c] by simp
  show "\<not> bit w k" if "msb w < k" for k
  proof (cases "k < ?W")
    case True
    define j where "j = ?W - 1 - k"
    have j: "j < ?c" using that True c unfolding m j_def by linarith
    have "?xs ! j = k" using True nth[of j] by (simp add: j_def)
    then show ?thesis using t(3)[OF j] by simp
  next
    case False
    then show ?thesis by (auto dest: bit_imp_le_length)
  qed
qed

lemma test_Cons_low [simp]: "k < LENGTH('a) \<Longrightarrow> test (w # ws) k = bit w k" for w :: "'a::len word"
  by (simp add: test_iff)

lemma test_Cons_high: "test (w # ws) (LENGTH('a) + k) = test ws k" for w :: "'a::len word"
  using test_append_right[of "[w]" ws k] by simp

lemma first_set_from_props:
  fixes ws :: "'a::len word list"
  assumes "\<exists>k < length ws * LENGTH('a). test ws k"
  shows "\<exists>f. first_set_from i ws = i * LENGTH('a) + f \<and> f < length ws * LENGTH('a) \<and> test ws f
            \<and> (\<forall>k<f. \<not> test ws k)"
  using assms
proof (induction ws arbitrary: i)
  case Nil
  then show ?case by simp
next
  case (Cons w ws)
  let ?W = "LENGTH('a)"
  show ?case
  proof (cases "w = 0")
    case False
    note c = countr_zero_props[OF False]
    have "first_set_from i (w # ws) = i * ?W + countr_zero w"
      using False by (simp add: lsb_def)
    moreover have "countr_zero w < length (w # ws) * ?W" using c(1) by (simp add: trans_less_add1)
    moreover have "test (w # ws) (countr_zero w)" using c(1,2) by simp
    moreover have "\<forall>k<countr_zero w. \<not> test (w # ws) k" using c(1,3) by simp
    ultimately show ?thesis by blast
  next
    case True
    obtain k where k: "k < length (w # ws) * ?W" "test (w # ws) k" using Cons.prems by blast
    have kW: "?W \<le> k" using k(2) True by (cases "k < ?W") simp_all
    then obtain k' where k': "k = ?W + k'" using le_Suc_ex by blast
    have "k' < length ws * ?W" "test ws k'"
      using k unfolding k' by (simp_all add: test_Cons_high)
    then have "\<exists>k < length ws * ?W. test ws k" by blast
    from Cons.IH[OF this, of "i + 1"] obtain f where f:
      "first_set_from (i + 1) ws = (i + 1) * ?W + f" "f < length ws * ?W" "test ws f" "\<forall>k<f. \<not> test ws k"
      by blast
    have "first_set_from i (w # ws) = i * ?W + (?W + f)" using True f(1) by simp
    moreover have "?W + f < length (w # ws) * ?W" using f(2) by simp
    moreover have "test (w # ws) (?W + f)" using f(3) by (simp add: test_Cons_high)
    moreover have "\<not> test (w # ws) j" if "j < ?W + f" for j
    proof (cases "j < ?W")
      case True
      then show ?thesis using \<open>w = 0\<close> by simp
    next
      case False
      then obtain j' where j': "j = ?W + j'" using le_Suc_ex not_less by blast
      then have "j' < f" using that by simp
      then show ?thesis using f(4) unfolding j' by (simp add: test_Cons_high)
    qed
    ultimately show ?thesis by blast
  qed
qed

lemma first_set_from_none:
  fixes ws :: "'a::len word list"
  assumes "\<forall>k < length ws * LENGTH('a). \<not> test ws k"
  shows "first_set_from i ws = npos"
  using assms
proof (induction ws arbitrary: i)
  case Nil
  show ?case by simp
next
  case (Cons w ws)
  let ?W = "LENGTH('a)"
  have w0: "w = 0"
  proof (rule ccontr)
    assume "w \<noteq> 0"
    then obtain k where "k < ?W" "bit w k" using word_nonzero_bit by blast
    then show False using Cons.prems by (auto simp: trans_less_add1 dest!: spec[of _ k])
  qed
  have "\<forall>k < length ws * ?W. \<not> test ws k"
  proof (intro allI impI)
    fix k assume "k < length ws * ?W"
    then have "?W + k < length (w # ws) * ?W" by simp
    then show "\<not> test ws k" using Cons.prems test_Cons_high[of w ws k] by blast
  qed
  then show ?case using w0 Cons.IH by simp
qed

lemma first_set_props:
  fixes hi :: "'a::len word list"
  assumes "\<exists>k < length hi * LENGTH('a). test hi k"
  shows "first_set hi < length hi * LENGTH('a)" "test hi (first_set hi)"
    "\<And>k. k < first_set hi \<Longrightarrow> \<not> test hi k"
  using first_set_from_props[OF assms, of 0] by (auto simp: first_set_def)

lemma first_set_none:
  fixes hi :: "'a::len word list"
  assumes "\<forall>k < length hi * LENGTH('a). \<not> test hi k"
  shows "first_set hi = npos"
  using first_set_from_none[OF assms] by (simp add: first_set_def)

lemma final_set_from_props:
  fixes poly :: "'a::len word list"
  assumes "\<exists>k < m * LENGTH('a). test poly k"
  shows "final_set_from m poly < m * LENGTH('a) \<and> test poly (final_set_from m poly)
          \<and> (\<forall>k. final_set_from m poly < k \<and> k < m * LENGTH('a) \<longrightarrow> \<not> test poly k)"
  using assms
proof (induction m)
  case 0
  then show ?case by simp
next
  case (Suc m)
  let ?W = "LENGTH('a)"
  show ?case
  proof (cases "poly ! m = 0")
    case False
    note c = msb_props[OF False]
    let ?f = "m * ?W + msb (poly ! m)"
    have dm: "?f div ?W = m" "?f mod ?W = msb (poly ! m)" using c(1) by simp_all
    have "final_set_from (Suc m) poly = ?f" using False by simp
    moreover have "?f < Suc m * ?W" using c(1) by simp
    moreover have "test poly ?f" unfolding test_iff dm by (rule c(2))
    moreover have "\<not> test poly k" if "?f < k" "k < Suc m * ?W" for k
    proof -
      have kd: "k div ?W = m"
      proof -
        have "m * ?W \<le> k" using that(1) by simp
        then have "m \<le> k div ?W" by (simp add: less_eq_div_iff_mult_less_eq)
        moreover have "k div ?W < Suc m" using that(2) by (rule div_less_words)
        ultimately show ?thesis by simp
      qed
      have "k = m * ?W + k mod ?W" using kd by (metis div_mult_mod_eq)
      then have "msb (poly ! m) < k mod ?W" using that(1) by linarith
      then show ?thesis unfolding test_iff kd by (rule c(3))
    qed
    ultimately show ?thesis by auto
  next
    case True
    have z: "\<not> test poly k" if "m * ?W \<le> k" "k < Suc m * ?W" for k
    proof -
      have "m \<le> k div ?W" using that(1) by (simp add: less_eq_div_iff_mult_less_eq)
      moreover have "k div ?W < Suc m" using that(2) by (rule div_less_words)
      ultimately have "k div ?W = m" by simp
      then show ?thesis using True by (simp add: test_iff)
    qed
    obtain k where k: "k < Suc m * ?W" "test poly k" using Suc.prems by blast
    then have "k < m * ?W" using z[of k] by (cases "k < m * ?W") simp_all
    then have "\<exists>k < m * ?W. test poly k" using k by blast
    from Suc.IH[OF this] have IH: "final_set_from m poly < m * ?W" "test poly (final_set_from m poly)"
      "\<And>k. final_set_from m poly < k \<Longrightarrow> k < m * ?W \<Longrightarrow> \<not> test poly k" by blast+
    have e: "final_set_from (Suc m) poly = final_set_from m poly" using True by simp
    have "\<not> test poly j" if "final_set_from m poly < j" "j < Suc m * ?W" for j
      using IH(3)[of j] z[of j] that by (cases "j < m * ?W") simp_all
    moreover have "final_set_from m poly < Suc m * ?W" using IH(1) by simp
    ultimately show ?thesis
      unfolding e using IH(2) by blast
  qed
qed

lemma final_set_props:
  fixes hi :: "'a::len word list"
  assumes "\<exists>k < N * LENGTH('a). test hi k"
  shows "final_set N hi < N * LENGTH('a)" "test hi (final_set N hi)"
    "\<And>k. final_set N hi < k \<Longrightarrow> k < N * LENGTH('a) \<Longrightarrow> \<not> test hi k"
  using final_set_from_props[OF assms] by (auto simp: final_set_def)

section \<open>The squaring step\<close>

lemma xacc_peel:
  assumes "\<And>k. k < i \<Longrightarrow> \<not> c k" "i < m"
  shows "xacc f c m acc = xacc f (\<lambda>k. k \<noteq> i \<and> c k) m (if c i then vxor acc (f i) else acc)"
  using assms(2)
proof (induction m)
  case 0
  then show ?case by simp
next
  case (Suc m)
  show ?case
  proof (cases "m = i")
    case True
    have a: "xacc f c i acc = acc" by (rule xacc_none) (use assms(1) in simp)
    have b: "xacc f (\<lambda>k. k \<noteq> i \<and> c k) i acc' = acc'" for acc'
      by (rule xacc_none) (use assms(1) in simp)
    show ?thesis using True by (simp add: a b)
  next
    case False
    then have "i < m" using Suc.prems by simp
    then show ?thesis using Suc.IH False by simp
  qed
qed

lemma xacc_extend:
  assumes "\<And>k. m \<le> k \<Longrightarrow> k < m' \<Longrightarrow> \<not> c k" "m \<le> m'"
  shows "xacc f c m' acc = xacc f c m acc"
  using assms(2,1)
proof (induction m' rule: dec_induct)
  case base
  show ?case by simp
next
  case (step k)
  then show ?case by simp
qed

lemma add_hi_loop_eq:
  fixes hi :: "'a::len word list"
  assumes "length poly = N" "\<And>k. k \<le> hi_final \<Longrightarrow> length (tab ! k) = N"
  shows "add_hi_loop N tab hi hi_final i poly
       = xacc (\<lambda>k. tab ! k) (\<lambda>k. i \<le> k \<and> even (k - i) \<and> test hi k) (hi_final + 1) poly"
  using assms
proof (induction N tab hi hi_final i poly rule: add_hi_loop.induct)
  case (1 N tab hi hi_final i poly)
  let ?f = "\<lambda>k. tab ! k"
  let ?c = "\<lambda>i k. i \<le> k \<and> even (k - i) \<and> test hi k"
  show ?case
  proof (cases "i \<le> hi_final")
    case False
    have "xacc ?f (?c i) (hi_final + 1) poly = poly"
      by (rule xacc_none) (use False in simp)
    then show ?thesis using False by (subst add_hi_loop.simps) simp
  next
    case True
    let ?poly' = "if test hi i then add N poly (tab ! i) else poly"
    have lt: "length (tab ! i) = N" using "1.prems"(2) True by simp
    have p': "?poly' = (if ?c i i then vxor poly (?f i) else poly)"
      using add_eq_vxor[OF "1.prems"(1) lt] by simp
    have lp': "length ?poly' = N" using "1.prems"(1) lt by simp
    have "add_hi_loop N tab hi hi_final i poly = add_hi_loop N tab hi hi_final (i + 2) ?poly'"
      using True by (subst add_hi_loop.simps) simp
    also have "\<dots> = xacc ?f (?c (i + 2)) (hi_final + 1) ?poly'"
      using "1.IH"[OF True lp'] "1.prems"(2) by simp
    also have "\<dots> = xacc ?f (\<lambda>k. k \<noteq> i \<and> ?c i k) (hi_final + 1) ?poly'"
    proof (rule xacc_cong)
      fix k
      show "?c (i + 2) k \<longleftrightarrow> k \<noteq> i \<and> ?c i k"
      proof (cases "i + 2 \<le> k")
        case True
        then have "k - i = (k - (i + 2)) + 2" by simp
        then show ?thesis using True by simp
      next
        case False
        then have "k \<le> i \<or> k = i + 1" by linarith
        then show ?thesis using False by auto
      qed
    qed simp
    also have "\<dots> = xacc ?f (?c i) (hi_final + 1) poly"
      unfolding p' by (rule xacc_peel[symmetric]) (use True in simp_all)
    finally show ?thesis .
  qed
qed

lemma square_step_eq:
  fixes r hi :: "'a::len word list"
  assumes il: "interleaves TYPE('a)" and len: "length r = N" "length hi = N"
    and tab: "\<And>k. k < N * LENGTH('a) \<Longrightarrow> length (tab ! k) = N"
    and small: "N * LENGTH('a) < 2 ^ 64"
    and rf: "riffle N (r, hi) = (a, b)"
  shows "square_step N tab (r, hi) = (xacc (\<lambda>k. tab ! k) (test b) (N * LENGTH('a)) a, b)"
proof -
  let ?n = "N * LENGTH('a)"
  note rb = riffle_bits[OF il len rf]
  have ss: "square_step N tab (r, hi)
      = (if first_set b \<noteq> npos then (add_hi_loop N tab b (final_set N b) (first_set b) a, b) else (a, b))"
    by (simp add: square_step_def rf Let_def)
  show ?thesis
  proof (cases "\<exists>k < ?n. test b k")
    case False
    then have none: "\<forall>k < length b * LENGTH('a). \<not> test b k" using rb(2) by simp
    have "first_set b = npos" by (rule first_set_none[OF none])
    moreover have "xacc (\<lambda>k. tab ! k) (test b) ?n a = a"
      by (rule xacc_none) (use False in blast)
    ultimately show ?thesis unfolding ss by simp
  next
    case True
    then have ex: "\<exists>k < length b * LENGTH('a). test b k" using rb(2) by simp
    note fs = first_set_props[OF ex, unfolded rb(2)]
    note ls = final_set_props[OF True]
    have fn: "first_set b \<noteq> npos" using fs(1) small by (simp add: npos_def)
    have evf: "even (first_set b)" using rb(4)[OF fs(1)] fs(2) by simp
    have tl: "\<And>k. k \<le> final_set N b \<Longrightarrow> length (tab ! k) = N"
      using ls(1) tab by simp
    have "add_hi_loop N tab b (final_set N b) (first_set b) a
        = xacc (\<lambda>k. tab ! k) (\<lambda>k. first_set b \<le> k \<and> even (k - first_set b) \<and> test b k) (final_set N b + 1) a"
      by (rule add_hi_loop_eq[OF rb(1) tl])
    also have "\<dots> = xacc (\<lambda>k. tab ! k) (test b) (final_set N b + 1) a"
    proof (rule xacc_cong)
      fix k assume k: "k < final_set N b + 1"
      then have kn: "k < ?n" using ls(1) by simp
      show "(first_set b \<le> k \<and> even (k - first_set b) \<and> test b k) \<longleftrightarrow> test b k"
      proof (cases "test b k")
        case False
        then show ?thesis by simp
      next
        case True
        then have "even k" using rb(4)[OF kn] by simp
        moreover have "first_set b \<le> k" using fs(3)[of k] True by (cases "first_set b \<le> k") simp_all
        ultimately show ?thesis using True evf by simp
      qed
    qed simp
    also have "\<dots> = xacc (\<lambda>k. tab ! k) (test b) ?n a"
      by (rule xacc_extend[symmetric]) (use ls in \<open>simp_all add: Suc_leI\<close>)
    finally show ?thesis unfolding ss using fn by simp
  qed
qed

section \<open>Polynomials representing powers of a linear map\<close>

lemma representsD:
  "represents N T r e \<Longrightarrow> length v = N \<Longrightarrow> pev N T (test r) (N * LENGTH('a)) v = (T ^^ e) v"
  for r :: "'a::len word list"
  by (simp add: represents_def)

lemma represents_length: "represents N T r e \<Longrightarrow> length r = N"
  by (simp add: represents_def)

lemma pev_cong: "(\<And>k. k < m \<Longrightarrow> c k = d k) \<Longrightarrow> pev N T c m v = pev N T d m v"
  unfolding pev_def by (rule xacc_cong) simp_all

lemma pev_false [simp]: "pev N T (\<lambda>k. False) m v = replicate N 0"
  unfolding pev_def by (rule xacc_none) simp

lemma pev_xor_coeff:
  assumes "lin N T" "length v = N"
  shows "pev N T (\<lambda>k. c k \<noteq> d k) m v = vxor (pev N T c m v) (pev N T d m v)"
proof (induction m)
  case 0
  show ?case by simp
next
  case (Suc m)
  have l: "length (pev N T c m v) = N" "length (pev N T d m v) = N" "length ((T ^^ m) v) = N"
    using assms linD1[OF lin_funpow[OF assms(1)] assms(2)] by simp_all
  show ?case
    unfolding pev_Suc Suc
    by (rule nth_equalityI) (auto simp: l xor.assoc xor.left_commute xor.commute)
qed

lemma pev_shift:
  assumes "lin N T" "length v = N"
  shows "pev N T (\<lambda>k. 0 < k \<and> c (k - 1)) (Suc m) v = T (pev N T c m v)"
proof (induction m)
  case 0
  show ?case using lin_zero[OF assms(1)] by (simp add: pev_Suc)
next
  case (Suc m)
  have l: "length (pev N T c m v) = N" "length ((T ^^ m) v) = N"
    using assms linD1[OF lin_funpow[OF assms(1)] assms(2)] by simp_all
  have "pev N T (\<lambda>k. 0 < k \<and> c (k - 1)) (Suc (Suc m)) v
      = (if c m then vxor (pev N T (\<lambda>k. 0 < k \<and> c (k - 1)) (Suc m) v) ((T ^^ Suc m) v)
         else pev N T (\<lambda>k. 0 < k \<and> c (k - 1)) (Suc m) v)"
    by (subst pev_Suc) simp
  also have "\<dots> = (if c m then vxor (T (pev N T c m v)) (T ((T ^^ m) v)) else T (pev N T c m v))"
    unfolding Suc by simp
  also have "\<dots> = T (pev N T c (Suc m) v)"
    by (simp add: pev_Suc linD2[OF assms(1) l])
  finally show ?case .
qed

lemma rep_unit:
  assumes "lin N T" "j < N * LENGTH('a)"
  shows "represents N T (unit_poly N j :: 'a::len word list) j"
  unfolding represents_def
proof (intro conjI allI impI)
  show "length (unit_poly N j :: 'a word list) = N" by simp
next
  fix v :: "'a word list" assume v: "length v = N"
  have "pev N T (test (unit_poly N j :: 'a word list)) (N * LENGTH('a)) v
      = vxor (replicate N 0) ((T ^^ j) v)"
    unfolding pev_def by (rule xacc_single[OF assms(2)]) (rule test_unit_poly[OF assms(2)])
  then show "pev N T (test (unit_poly N j :: 'a word list)) (N * LENGTH('a)) v = (T ^^ j) v"
    using linD1[OF lin_funpow[OF assms(1)] v] by simp
qed

lemma rep_times_x:
  fixes p r :: "'a::len word list"
  assumes T: "lin N T" and H: "represents N T p (N * LENGTH('a))" and r: "represents N T r e" and N: "0 < N"
  shows "represents N T (times_x_step N p r) (Suc e)"
  unfolding represents_def
proof (intro conjI allI impI)
  let ?n = "N * LENGTH('a)"
  have lp: "length p = N" and lr: "length r = N"
    using H r by (simp_all add: represents_def)
  show "length (times_x_step N p r) = N" using lr N by simp
  fix v :: "'a word list" assume v: "length v = N"
  have n: "?n = Suc (?n - 1)" using N by simp
  let ?top = "test r (?n - 1)"
  let ?sh = "\<lambda>k. 0 < k \<and> test r (k - 1)"
  have lens: "length (pev N T (test r) (?n - 1) v) = N" "length ((T ^^ (?n - 1)) v) = N"
    "length (T (pev N T (test r) ?n v)) = N" "length ((T ^^ ?n) v) = N"
    using T v linD1[OF lin_funpow[OF T] v] linD1[OF T] by simp_all
  have a: "pev N T ?sh ?n v = T (pev N T (test r) (?n - 1) v)"
    by (subst n) (rule pev_shift[OF T v])
  have b: "pev N T (test r) ?n v
      = (if ?top then vxor (pev N T (test r) (?n - 1) v) ((T ^^ (?n - 1)) v) else pev N T (test r) (?n - 1) v)"
    by (subst n) (simp add: pev_Suc)
  have Tn: "T ((T ^^ (?n - 1)) v) = (T ^^ ?n) v" by (subst (2) n) simp
  have c: "pev N T ?sh ?n v = (if ?top then vxor (T (pev N T (test r) ?n v)) ((T ^^ ?n) v) else T (pev N T (test r) ?n v))"
  proof (cases ?top)
    case False
    then show ?thesis using a b by simp
  next
    case True
    have "T (pev N T (test r) ?n v) = T (vxor (pev N T (test r) (?n - 1) v) ((T ^^ (?n - 1)) v))"
      unfolding b using True by simp
    also have "\<dots> = vxor (T (pev N T (test r) (?n - 1) v)) (T ((T ^^ (?n - 1)) v))"
      by (rule linD2[OF T lens(1,2)])
    also have "\<dots> = vxor (pev N T ?sh ?n v) ((T ^^ ?n) v)"
      unfolding a Tn ..
    finally have "T (pev N T (test r) ?n v) = vxor (pev N T ?sh ?n v) ((T ^^ ?n) v)" .
    moreover have "length (pev N T ?sh ?n v) = N" using T v by simp
    ultimately show ?thesis using True lens(4)
      by (simp add: vxor_assoc)
  qed
  have "pev N T (test (times_x_step N p r)) ?n v = pev N T (\<lambda>k. ?sh k \<noteq> (?top \<and> test p k)) ?n v"
    by (rule pev_cong) (rule test_times_x_step[OF lr lp])
  also have "\<dots> = vxor (pev N T ?sh ?n v) (pev N T (\<lambda>k. ?top \<and> test p k) ?n v)"
    by (rule pev_xor_coeff[OF T v])
  also have "\<dots> = T (pev N T (test r) ?n v)"
  proof (cases ?top)
    case False
    then show ?thesis using c lens(3) by simp
  next
    case True
    have "pev N T (\<lambda>k. ?top \<and> test p k) ?n v = (T ^^ ?n) v"
      using True representsD[OF H v] by simp
    then show ?thesis using True c lens(3,4) by (simp add: vxor_assoc)
  qed
  also have "\<dots> = (T ^^ Suc e) v" using representsD[OF r v] by simp
  finally show "pev N T (test (times_x_step N p r)) ?n v = (T ^^ Suc e) v" .
qed

lemma rep_power_mod:
  fixes p :: "'a::len word list"
  assumes T: "lin N T" and H: "represents N T p (N * LENGTH('a))" and N: "0 < N" and i: "i < N * LENGTH('a)"
  shows "represents N T (power_mod N p ! i) (N * LENGTH('a) + i)"
proof -
  have "represents N T ((times_x_step N p ^^ j) p) (N * LENGTH('a) + j)" for j
    by (induction j) (simp_all add: H rep_times_x[OF T H _ N])
  then show ?thesis by (simp add: power_mod_nth(1)[OF i])
qed

lemma pev_xacc:
  fixes acc :: "'a::len word list"
  assumes T: "lin N T" and v: "length v = N" and acc: "length acc = N"
    and Y: "\<And>k. k < m \<Longrightarrow> length (Y k) = N"
  shows "pev N T (test (xacc Y c m acc)) (N * LENGTH('a)) v
       = xacc (\<lambda>k. pev N T (test (Y k)) (N * LENGTH('a)) v) c m (pev N T (test acc) (N * LENGTH('a)) v)"
  using Y
proof (induction m)
  case 0
  show ?case by simp
next
  case (Suc m)
  have la: "length (xacc Y c m acc) = N" using Suc.prems acc by simp
  have ly: "length (Y m) = N" using Suc.prems by simp
  have IH: "pev N T (test (xacc Y c m acc)) (N * LENGTH('a)) v
       = xacc (\<lambda>k. pev N T (test (Y k)) (N * LENGTH('a)) v) c m (pev N T (test acc) (N * LENGTH('a)) v)"
    using Suc by simp
  show ?case
  proof (cases "c m")
    case False
    then show ?thesis using IH by simp
  next
    case True
    have "pev N T (test (vxor (xacc Y c m acc) (Y m))) (N * LENGTH('a)) v
        = pev N T (\<lambda>k. test (xacc Y c m acc) k \<noteq> test (Y m) k) (N * LENGTH('a)) v"
      by (rule pev_cong) (rule test_vxor[OF la ly])
    also have "\<dots> = vxor (pev N T (test (xacc Y c m acc)) (N * LENGTH('a)) v) (pev N T (test (Y m)) (N * LENGTH('a)) v)"
      by (rule pev_xor_coeff[OF T v])
    finally show ?thesis using True IH by simp
  qed
qed

lemma xacc_even:
  "xacc F (\<lambda>j. even j \<and> c (j div 2)) (2 * m) acc = xacc (\<lambda>k. F (2 * k)) c m acc"
  by (induction m) simp_all

lemma rep_square:
  fixes p r hi :: "'a::len word list"
  assumes T: "lin N T" and H: "represents N T p (N * LENGTH('a))" and r: "represents N T r e" and N: "0 < N"
    and il: "interleaves TYPE('a)" and hi: "length hi = N" and small: "N * LENGTH('a) < 2 ^ 64"
  shows "represents N T (fst (square_step N (power_mod N p) (r, hi))) (2 * e)"
    and "length (snd (square_step N (power_mod N p) (r, hi))) = N"
proof -
  let ?n = "N * LENGTH('a)"
  let ?tab = "power_mod N p"
  have lr: "length r = N" using r by (rule represents_length)
  obtain a b where rf: "riffle N (r, hi) = (a, b)" by (cases "riffle N (r, hi)")
  note rb = riffle_bits[OF il lr hi rf]
  have evn: "even ?n" using il by (simp add: interleaves_def)
  have tabrep: "\<And>k. k < ?n \<Longrightarrow> represents N T (?tab ! k) (?n + k)"
    by (rule rep_power_mod[OF T H N])
  have tablen: "\<And>k. k < ?n \<Longrightarrow> length (?tab ! k) = N"
    using tabrep by (simp add: represents_def)
  have ss: "square_step N ?tab (r, hi) = (xacc (\<lambda>k. ?tab ! k) (test b) ?n a, b)"
    by (rule square_step_eq[OF il lr hi tablen small rf])
  show "length (snd (square_step N ?tab (r, hi))) = N" unfolding ss using rb(2) by simp
  show "represents N T (fst (square_step N ?tab (r, hi))) (2 * e)"
    unfolding ss fst_conv represents_def
  proof (intro conjI allI impI)
    show "length (xacc (\<lambda>k. ?tab ! k) (test b) ?n a) = N"
      using length_xacc[of ?n "\<lambda>k. ?tab ! k" a "test b"] tablen rb(1) by simp
    fix v :: "'a word list" assume v: "length v = N"
    have "pev N T (test (xacc (\<lambda>k. ?tab ! k) (test b) ?n a)) ?n v
        = xacc (\<lambda>k. pev N T (test (?tab ! k)) ?n v) (test b) ?n (pev N T (test a) ?n v)"
      by (rule pev_xacc[OF T v rb(1) tablen])
    also have "\<dots> = xacc (\<lambda>k. (T ^^ (?n + k)) v) (\<lambda>k. even (?n + k) \<and> test r ((?n + k) div 2)) ?n
                      (pev N T (test a) ?n v)"
      by (rule xacc_cong) (use rb(4) evn representsD[OF tabrep v] in simp_all)
    also have "pev N T (test a) ?n v = xacc (\<lambda>j. (T ^^ j) v) (\<lambda>j. even j \<and> test r (j div 2)) ?n (replicate N 0)"
      unfolding pev_def by (rule xacc_cong) (use rb(3) in simp_all)
    also have "xacc (\<lambda>k. (T ^^ (?n + k)) v) (\<lambda>k. even (?n + k) \<and> test r ((?n + k) div 2)) ?n
                 (xacc (\<lambda>j. (T ^^ j) v) (\<lambda>j. even j \<and> test r (j div 2)) ?n (replicate N 0))
        = xacc (\<lambda>j. (T ^^ j) v) (\<lambda>j. even j \<and> test r (j div 2)) (?n + ?n) (replicate N 0)"
      by (rule xacc_add[symmetric])
    also have "\<dots> = xacc (\<lambda>k. (T ^^ (2 * k)) v) (test r) ?n (replicate N 0)"
      using xacc_even[of "\<lambda>j. (T ^^ j) v" "test r" ?n "replicate N 0"] by (simp add: mult_2)
    also have "\<dots> = pev N T (test r) ?n (pev N T (test r) ?n v)"
      by (rule pev_square[OF T v, symmetric])
    also have "\<dots> = (T ^^ e) ((T ^^ e) v)"
      using representsD[OF r v] representsD[OF r, of "(T ^^ e) v"] linD1[OF lin_funpow[OF T] v] by simp
    also have "\<dots> = (T ^^ (2 * e)) v" by (simp add: funpow_add mult_2)
    finally show "pev N T (test (xacc (\<lambda>k. ?tab ! k) (test b) ?n a)) ?n v = (T ^^ (2 * e)) v" .
  qed
qed

section \<open>The exponentiation loops of \<open>reduce\<close>\<close>

lemma rep_pow2_loop:
  fixes p r hi :: "'a::len word list"
  assumes T: "lin N T" and H: "represents N T p (N * LENGTH('a))" and N: "0 < N"
    and il: "interleaves TYPE('a)" and small: "N * LENGTH('a) < 2 ^ 64"
    and r: "represents N T r e" and hi: "length hi = N"
  shows "represents N T (fst ((square_step N (power_mod N p) ^^ J) (r, hi))) (e * 2 ^ J)
       \<and> length (snd ((square_step N (power_mod N p) ^^ J) (r, hi))) = N"
proof (induction J)
  case 0
  show ?case using r hi by simp
next
  case (Suc J)
  obtain r' hi' where s: "(square_step N (power_mod N p) ^^ J) (r, hi) = (r', hi')"
    by (cases "(square_step N (power_mod N p) ^^ J) (r, hi)")
  have r': "represents N T r' (e * 2 ^ J)" and hi': "length hi' = N"
    using Suc unfolding s by simp_all
  show ?case
    using rep_square[OF T H r' N il hi' small] by (simp add: s mult.assoc mult.commute mult.left_commute)
qed

lemma nat_and_exp: "(J AND 2 ^ b \<noteq> (0::nat)) = bit J b"
  by (simp add: and_exp_eq_0_iff_not_bit)

lemma div_exp_step: "(J :: nat) div 2 ^ b = 2 * (J div 2 ^ Suc b) + (if bit J b then 1 else 0)"
proof -
  define x where "x = J div 2 ^ b"
  have d: "J div 2 ^ Suc b = x div 2"
    unfolding x_def by (simp add: power_Suc2 div_mult2_eq del: power_Suc)
  have o: "bit J b = odd x" unfolding x_def by (simp add: bit_iff_odd)
  have "x = 2 * (x div 2) + (if odd x then 1 else 0)"
    by (cases "odd x") (auto elim: oddE)
  then show ?thesis unfolding d o x_def[symmetric] .
qed

lemma bit_width_size_0: "bit_width_size 0 = 0"
  by (subst bit_width_size.simps) simp

lemma bit_width_size_pos: "0 < x \<Longrightarrow> bit_width_size x = Suc (bit_width_size (x div 2))"
  by (subst bit_width_size.simps) simp

lemma pow2_pred: "0 < k \<Longrightarrow> (2::nat) ^ k = 2 * 2 ^ (k - 1)"
  by (cases k) simp_all

lemma rep_sqmul_loop:
  fixes p r hi :: "'a::len word list"
  assumes T: "lin N T" and H: "represents N T p (N * LENGTH('a))" and N: "0 < N"
    and il: "interleaves TYPE('a)" and small: "N * LENGTH('a) < 2 ^ 64"
    and r: "represents N T r (J div 2 ^ b)" and hi: "length hi = N"
  shows "represents N T (fst (sqmul_loop N p (power_mod N p) J (2 ^ b div 2) (r, hi))) J"
  using r hi
proof (induction b arbitrary: r hi)
  case 0
  then show ?case by (subst sqmul_loop.simps) simp
next
  case (Suc b)
  obtain r1 hi1 where s: "square_step N (power_mod N p) (r, hi) = (r1, hi1)"
    by (cases "square_step N (power_mod N p) (r, hi)")
  have r1: "represents N T r1 (2 * (J div 2 ^ Suc b))" and hi1: "length hi1 = N"
    using rep_square[OF T H Suc.prems(1) N il Suc.prems(2) small] unfolding s by simp_all
  let ?r2 = "if J AND 2 ^ b \<noteq> 0 then times_x_step N p r1 else r1"
  have r2: "represents N T ?r2 (J div 2 ^ b)"
    unfolding nat_and_exp div_exp_step[of J b] using rep_times_x[OF T H r1 N] r1 by simp
  have jb: "(2::nat) ^ Suc b div 2 = 2 ^ b" by simp
  have "sqmul_loop N p (power_mod N p) J (2 ^ Suc b div 2) (r, hi)
      = sqmul_loop N p (power_mod N p) J (2 ^ b div 2) (?r2, hi1)"
    unfolding jb by (subst sqmul_loop.simps) (simp add: s Let_def)
  then show ?case using Suc.IH[OF r2 hi1] by simp
qed

lemma bit_width_size_bounds:
  "0 < x \<Longrightarrow> 2 ^ (bit_width_size x - 1) \<le> x \<and> x < 2 ^ bit_width_size x"
proof (induction x rule: bit_width_size.induct)
  case (1 x)
  have e: "bit_width_size x = Suc (bit_width_size (x div 2))"
    using "1.prems" by (rule bit_width_size_pos)
  show ?case
  proof (cases "x div 2 = 0")
    case True
    then have "x = 1" using "1.prems" by (simp add: div_eq_0_iff)
    then show ?thesis unfolding e by (simp add: bit_width_size_0)
  next
    case False
    then have IH: "2 ^ (bit_width_size (x div 2) - 1) \<le> x div 2" "x div 2 < 2 ^ bit_width_size (x div 2)"
      using "1.IH" "1.prems" by simp_all
    have pos: "0 < bit_width_size (x div 2)" using False by (simp add: bit_width_size_pos)
    have "2 ^ bit_width_size (x div 2) = (2::nat) * 2 ^ (bit_width_size (x div 2) - 1)"
      using pos by (rule pow2_pred)
    then have "2 ^ bit_width_size (x div 2) \<le> x" using IH(1) by linarith
    moreover have "x < 2 * 2 ^ bit_width_size (x div 2)" using IH(2) by linarith
    ultimately show ?thesis unfolding e by simp
  qed
qed

lemma bit_floor_div:
  assumes "0 < J"
  shows "bit_floor J = 2 ^ (bit_width_size J - 1)" "J div 2 ^ (bit_width_size J - 1) = 1"
proof -
  show "bit_floor J = 2 ^ (bit_width_size J - 1)" using assms by (simp add: bit_floor_def)
  note b = bit_width_size_bounds[OF assms]
  have pos: "0 < bit_width_size J" using assms by (simp add: bit_width_size_pos)
  have "2 ^ bit_width_size J = (2::nat) * 2 ^ (bit_width_size J - 1)"
    using pos by (rule pow2_pred)
  then have "J < 2 * 2 ^ (bit_width_size J - 1)" using b by simp
  then show "J div 2 ^ (bit_width_size J - 1) = 1"
    using b by (intro Euclidean_Rings.div_nat_eqI) simp_all
qed

text \<open>The result of \<open>reduce\<close> represents the requested exponent for every linear map that
  the polynomial \<open>p\<close> describes.\<close>

lemma reduce_represents:
  fixes p hi0 :: "'a::len word list"
  assumes T: "lin N T" and H: "represents N T p (N * LENGTH('a))"
    and il: "interleaves TYPE('a)" and small: "N * LENGTH('a) < 2 ^ 64" and N: "0 < N"
    and hi: "length hi0 = N"
  shows "represents N T (reduce_ws N hi0 p J J_is_pow2) (if J_is_pow2 then 2 ^ J else J)"
proof -
  let ?n = "N * LENGTH('a)"
  have one: "1 < ?n"
  proof -
    have "even LENGTH('a)" using il by (simp add: interleaves_def)
    then obtain h where h: "LENGTH('a) = 2 * h" by (elim evenE)
    have "h \<noteq> 0" using h by (metis len_not_eq_0 mult_0_right)
    then have "2 \<le> LENGTH('a)" using h by simp
    moreover have "LENGTH('a) \<le> ?n" using N by simp
    ultimately show ?thesis by linarith
  qed
  have x: "represents N T (set_coeff (replicate N 0) 1 :: 'a word list) 1"
    using rep_unit[OF T one] by (simp add: unit_poly_def)
  show ?thesis
  proof (cases J_is_pow2)
    case True
    then show ?thesis
      using rep_pow2_loop[OF T H N il small x hi, of J] by (simp add: reduce_ws_def Let_def)
  next
    case False
    consider "J < ?n" | "J = ?n" | "?n < J" by linarith
    then show ?thesis
    proof cases
      case 1
      then show ?thesis using False rep_unit[OF T 1] by (simp add: reduce_ws_def Let_def unit_poly_def)
    next
      case 2
      then show ?thesis using False H by (simp add: reduce_ws_def Let_def)
    next
      case 3
      then have J0: "0 < J" by simp
      note bf = bit_floor_div[OF J0]
      have x': "represents N T (set_coeff (replicate N 0) 1 :: 'a word list) (J div 2 ^ (bit_width_size J - 1))"
        using x bf(2) by simp
      show ?thesis
        using 3 False rep_sqmul_loop[OF T H N il small x' hi]
        by (simp add: reduce_ws_def Let_def bf(1))
    qed
  qed
qed

section \<open>The companion map: multiplication by \<open>x\<close> modulo \<open>c(x)\<close>\<close>

lemma test_xacc_units:
  assumes "m \<le> N * LENGTH('a)" "j < N * LENGTH('a)"
  shows "test (xacc (\<lambda>k. unit_poly N k :: 'a::len word list) c m (replicate N 0)) j \<longleftrightarrow> j < m \<and> c j"
  using assms(1)
proof (induction m)
  case 0
  show ?case using assms(2) by simp
next
  case (Suc m)
  have m: "m < N * LENGTH('a)" using Suc.prems by simp
  have l: "length (xacc (\<lambda>k. unit_poly N k :: 'a word list) c m (replicate N 0)) = N"
    using length_xacc[of m "\<lambda>k. unit_poly N k :: 'a word list" "replicate N 0" c] by simp
  have IH: "test (xacc (\<lambda>k. unit_poly N k :: 'a word list) c m (replicate N 0)) j \<longleftrightarrow> j < m \<and> c j"
    using Suc by simp
  show ?case
    using IH test_vxor[OF l length_unit_poly assms(2), of m] test_unit_poly[OF m assms(2)]
    by (auto simp: less_Suc_eq)
qed

lemma pev_unit0:
  fixes p r :: "'a::len word list"
  assumes "length p = N" "length r = N"
  shows "pev N (times_x_step N p) (test r) (N * LENGTH('a)) (unit_poly N 0) = r"
proof -
  let ?n = "N * LENGTH('a)"
  have e: "pev N (times_x_step N p) (test r) ?n (unit_poly N 0)
      = xacc (\<lambda>k. unit_poly N k) (test r) ?n (replicate N 0)"
    unfolding pev_def by (rule xacc_cong) (simp_all add: times_x_funpow_unit[OF assms(1)])
  show ?thesis
    unfolding e
  proof (rule bits_ext[where N = N])
    show "length (xacc (\<lambda>k. unit_poly N k :: 'a word list) (test r) ?n (replicate N 0)) = N"
      using length_xacc[of ?n "\<lambda>k. unit_poly N k :: 'a word list" "replicate N 0" "test r"] by simp
    show "length r = N" by fact
    fix k assume "k < ?n"
    then show "test (xacc (\<lambda>k. unit_poly N k :: 'a word list) (test r) ?n (replicate N 0)) k = test r k"
      using test_xacc_units[of ?n N k "test r", where 'a = 'a] by simp
  qed
qed

text \<open>Cayley-Hamilton for the companion map: \<open>p\<close> evaluated at multiplication by \<open>x\<close> is the
  \<open>n\<close>-fold multiplication by \<open>x\<close>.\<close>

lemma companion_represents:
  fixes p :: "'a::len word list"
  assumes "length p = N" "0 < N"
  shows "represents N (times_x_step N p) p (N * LENGTH('a))"
  unfolding represents_def
proof (intro conjI allI impI)
  let ?n = "N * LENGTH('a)"
  let ?M = "times_x_step N p"
  let ?e = "unit_poly N 0 :: 'a word list"
  show "length p = N" by fact
  fix v :: "'a word list" assume v: "length v = N"
  note M = lin_times_x_step[OF assms]
  have le: "length ?e = N" by simp
  have "pev N ?M (test p) ?n v = pev N ?M (test p) ?n (pev N ?M (test v) ?n ?e)"
    by (simp add: pev_unit0[OF assms(1) v])
  also have "\<dots> = pev N ?M (test v) ?n (pev N ?M (test p) ?n ?e)"
    by (rule pev_commute[OF M le])
  also have "\<dots> = pev N ?M (test v) ?n ((?M ^^ ?n) ?e)"
    by (simp add: pev_unit0[OF assms(1) assms(1)] times_x_funpow_n[OF assms])
  also have "\<dots> = (?M ^^ ?n) (pev N ?M (test v) ?n ?e)"
    by (rule funpow_pev_commute[OF M le])
  also have "\<dots> = (?M ^^ ?n) v"
    by (simp add: pev_unit0[OF assms(1) v])
  finally show "pev N ?M (test p) ?n v = (?M ^^ ?n) v" .
qed

text \<open>\<open>reduce\<close> yields the polynomial reached from \<open>1\<close> by multiplying by \<open>x\<close> modulo \<open>c(x)\<close>
  as many times as the exponent says.\<close>

lemma reduce_ws_companion:
  fixes p hi0 :: "'a::len word list"
  assumes "interleaves TYPE('a)" "N * LENGTH('a) < 2 ^ 64" "0 < N" "length p = N" "length hi0 = N"
  shows "reduce_ws N hi0 p J J_is_pow2
       = (times_x_step N p ^^ (if J_is_pow2 then 2 ^ J else J)) (unit_poly N 0)"
proof -
  note M = lin_times_x_step[OF assms(4,3)]
  note H = companion_represents[OF assms(4,3)]
  note R = reduce_represents[OF M H assms(1,2,3,5), of J J_is_pow2]
  have "reduce_ws N hi0 p J J_is_pow2
      = pev N (times_x_step N p) (test (reduce_ws N hi0 p J J_is_pow2)) (N * LENGTH('a)) (unit_poly N 0)"
    by (rule pev_unit0[OF assms(4) represents_length[OF R], symmetric])
  also have "\<dots> = (times_x_step N p ^^ (if J_is_pow2 then 2 ^ J else J)) (unit_poly N 0)"
    by (rule representsD[OF R]) simp
  finally show ?thesis .
qed

section \<open>Polynomials over GF(2) as natural numbers\<close>

lemma nat_lt_pow_iff_bits: "(x :: nat) < 2 ^ m \<longleftrightarrow> (\<forall>k\<ge>m. \<not> bit x k)"
proof -
  have "x < 2 ^ m \<longleftrightarrow> take_bit m x = x" by (simp add: take_bit_nat_eq_self_iff)
  also have "\<dots> \<longleftrightarrow> (\<forall>k. bit (take_bit m x) k = bit x k)" by (simp add: bit_eq_iff)
  also have "\<dots> \<longleftrightarrow> (\<forall>k\<ge>m. \<not> bit x k)"
    unfolding bit_take_bit_iff by (metis not_less)
  finally show ?thesis .
qed

lemma bit_width_size_gt0: "x \<noteq> 0 \<Longrightarrow> 0 < bit_width_size x"
  using bit_width_size_pos[of x] by simp

lemma bit_width_size_le_iff: "bit_width_size x \<le> k \<longleftrightarrow> x < 2 ^ k"
proof (cases "x = 0")
  case True
  then show ?thesis by (simp add: bit_width_size_0)
next
  case False
  then have b: "2 ^ (bit_width_size x - 1) \<le> x" "x < 2 ^ bit_width_size x"
    using bit_width_size_bounds[of x] by simp_all
  have pos: "0 < bit_width_size x" using False by (rule bit_width_size_gt0)
  show ?thesis
  proof
    assume "bit_width_size x \<le> k"
    then have "(2::nat) ^ bit_width_size x \<le> 2 ^ k" by simp
    then show "x < 2 ^ k" using b(2) by linarith
  next
    assume "x < 2 ^ k"
    then have "(2::nat) ^ (bit_width_size x - 1) < 2 ^ k" using b(1) by linarith
    then have "bit_width_size x - 1 < k" by simp
    then show "bit_width_size x \<le> k" using pos by linarith
  qed
qed

lemma bit_width_size_eq:
  assumes "2 ^ l \<le> x" "x < 2 ^ Suc l"
  shows "bit_width_size x = Suc l"
proof -
  have "bit_width_size x \<le> Suc l" using assms(2) by (simp only: bit_width_size_le_iff)
  moreover have "\<not> bit_width_size x \<le> l" using assms(1) by (simp only: bit_width_size_le_iff not_less)
  ultimately show ?thesis by simp
qed

lemma bit_poly_of_words:
  fixes ws :: "'a::len word list"
  shows "bit (poly_of_words ws) k \<longleftrightarrow> k < length ws * LENGTH('a) \<and> test ws k"
proof -
  have "0 \<le> horner_sum uint (2 ^ LENGTH('a)) ws" for ws :: "'a word list"
    by (induction ws) simp_all
  then have "bit (poly_of_words ws) k = bit (horner_sum uint (2 ^ LENGTH('a)) ws) k"
    unfolding poly_of_words_def by (simp add: bit_nat_iff)
  also have "\<dots> \<longleftrightarrow> k div LENGTH('a) < length ws \<and> bit (ws ! (k div LENGTH('a))) (k mod LENGTH('a))"
    by (rule bit_horner_sum_uint_exp_iff)
  also have "k div LENGTH('a) < length ws \<longleftrightarrow> k < length ws * LENGTH('a)"
    by (simp add: less_mult_imp_div_less div_less_iff_less_mult)
  finally show ?thesis by (simp add: test_iff)
qed

lemma poly_of_words_less:
  fixes ws :: "'a::len word list"
  shows "poly_of_words ws < 2 ^ (length ws * LENGTH('a))"
  unfolding nat_lt_pow_iff_bits by (simp add: bit_poly_of_words)

lemma bit_monic:
  assumes "p < (2::nat) ^ n"
  shows "bit (2 ^ n + p) k \<longleftrightarrow> k = n \<or> bit p k"
proof -
  have d: "\<not> bit ((2::nat) ^ n) j \<or> \<not> bit p j" for j
    using assms unfolding nat_lt_pow_iff_bits by (auto simp: bit_exp_iff)
  show ?thesis
    unfolding bit_disjunctive_add_iff[of "2 ^ n" p, OF d] by (auto simp: bit_exp_iff)
qed

lemma monic_less:
  assumes "p < (2::nat) ^ n"
  shows "2 ^ n + p < 2 ^ Suc n"
  using assms by simp

lemma bit_width_size_monic:
  assumes "p < (2::nat) ^ n"
  shows "bit_width_size (2 ^ n + p) = Suc n"
  by (rule bit_width_size_eq) (use assms in simp_all)

lemma bit_width_size_pow2: "bit_width_size (2 ^ e) = Suc e"
  by (rule bit_width_size_eq) simp_all

section \<open>Long division\<close>

lemma xor_double: "2 * a XOR 2 * b = 2 * (a XOR b)" for a b :: nat
  by (rule bit_eqI) (auto simp: bit_xor_iff bit_double_iff)

lemma push_bit_Suc_double: "push_bit (Suc k) c = 2 * push_bit k c" for c :: nat
  by (simp add: push_bit_eq_mult)

lemma gf2_rem_stable:
  assumes "a < 2 ^ (n + j)" "j \<le> k"
  shows "gf2_rem n c k a = gf2_rem n c j a"
  using assms(2)
proof (induction k)
  case 0
  then show ?case by simp
next
  case (Suc k)
  show ?case
  proof (cases "j = Suc k")
    case True
    then show ?thesis by simp
  next
    case False
    then have jk: "j \<le> k" using Suc.prems by simp
    then have "n + j \<le> n + k" by simp
    then have "\<not> bit a (n + k)" using assms(1) unfolding nat_lt_pow_iff_bits by blast
    then show ?thesis using Suc.IH[OF jk] by simp
  qed
qed

lemma gf2_rem_double:
  assumes n: "0 < n" and c: "p < 2 ^ n" and a: "a < 2 ^ (n + k)"
  shows "gf2_rem n (2 ^ n + p) (Suc k) (2 * a) = gf2_mulx n (2 ^ n + p) (gf2_rem n (2 ^ n + p) k a)"
  using a
proof (induction k arbitrary: a)
  case 0
  have "bit (2 * a) n = bit a (n - 1)" using n by (simp add: bit_double_iff)
  then show ?case by (simp add: gf2_mulx_def)
next
  case (Suc k)
  let ?c = "2 ^ n + p"
  define a' where "a' = (if bit a (n + k) then a XOR push_bit k ?c else a)"
  have b: "bit (2 * a) (n + Suc k) = bit a (n + k)" by (simp add: bit_double_iff)
  have dbl: "(if bit (2 * a) (n + Suc k) then 2 * a XOR push_bit (Suc k) ?c else 2 * a) = 2 * a'"
    unfolding b a'_def push_bit_Suc_double xor_double by simp
  have "\<not> bit a' j" if "n + k \<le> j" for j
  proof (cases "j = n + k")
    case True
    then show ?thesis
      unfolding a'_def by (simp add: bit_xor_iff bit_push_bit_iff_nat bit_monic[OF c])
  next
    case False
    then have j: "n + Suc k \<le> j" using that by simp
    then have aj: "\<not> bit a j" using Suc.prems unfolding nat_lt_pow_iff_bits by blast
    have "\<not> bit p (j - k)"
      using c j unfolding nat_lt_pow_iff_bits by (simp add: le_diff_conv2)
    then have "\<not> bit (push_bit k ?c) j"
      using j by (auto simp: bit_push_bit_iff_nat bit_monic[OF c])
    then show ?thesis using aj unfolding a'_def by (simp add: bit_xor_iff)
  qed
  then have a'less: "a' < 2 ^ (n + k)" unfolding nat_lt_pow_iff_bits by blast
  have "gf2_rem n ?c (Suc (Suc k)) (2 * a) = gf2_rem n ?c (Suc k) (2 * a')"
    by (subst gf2_rem.simps(2)) (simp only: dbl)
  also have "\<dots> = gf2_mulx n ?c (gf2_rem n ?c k a')" by (rule Suc.IH[OF a'less])
  also have "gf2_rem n ?c k a' = gf2_rem n ?c (Suc k) a" unfolding a'_def by simp
  finally show ?case .
qed

lemma gf2_mod_pow2:
  assumes n: "0 < n" and c: "p < 2 ^ n"
  shows "gf2_mod (2 ^ e) (2 ^ n + p) = gf2_rem n (2 ^ n + p) e (2 ^ e)"
proof -
  have "(2::nat) ^ e < 2 ^ (n + (Suc e - n))" by simp
  moreover have "Suc e - n \<le> e" using n by simp
  ultimately have "gf2_rem n (2 ^ n + p) e (2 ^ e) = gf2_rem n (2 ^ n + p) (Suc e - n) (2 ^ e)"
    by (rule gf2_rem_stable)
  then show ?thesis
    unfolding gf2_mod_def bit_width_size_monic[OF c] bit_width_size_pow2 by simp
qed

lemma gf2_mod_pow2_Suc:
  assumes n: "0 < n" and c: "p < 2 ^ n"
  shows "gf2_mod (2 ^ Suc e) (2 ^ n + p) = gf2_mulx n (2 ^ n + p) (gf2_mod (2 ^ e) (2 ^ n + p))"
proof -
  have "(2::nat) ^ e < 2 ^ (n + e)" using n by simp
  from gf2_rem_double[OF n c this] show ?thesis
    unfolding gf2_mod_pow2[OF n c] by simp
qed

lemma gf2_rem_multiple: "a XOR gf2_rem n c k a \<in> gf2_multiples c"
proof (induction k arbitrary: a)
  case 0
  show ?case by (simp add: gf2_multiples.zero)
next
  case (Suc k)
  show ?case
  proof (cases "bit a (n + k)")
    case False
    then show ?thesis using Suc.IH[of a] by simp
  next
    case True
    have "(a XOR push_bit k c) XOR gf2_rem n c k (a XOR push_bit k c) \<in> gf2_multiples c"
      by (rule Suc.IH)
    then have "((a XOR push_bit k c) XOR gf2_rem n c k (a XOR push_bit k c)) XOR push_bit k c
        \<in> gf2_multiples c"
      by (rule gf2_multiples.add)
    moreover have "((a XOR push_bit k c) XOR gf2_rem n c k (a XOR push_bit k c)) XOR push_bit k c
        = a XOR gf2_rem n c k (a XOR push_bit k c)"
      by (simp add: bit_eq_iff bit_xor_iff) blast
    ultimately show ?thesis using True by simp
  qed
qed

lemma gf2_step_less:
  assumes c: "p < (2::nat) ^ n" and a: "a < 2 ^ (n + Suc k)"
  shows "(if bit a (n + k) then a XOR push_bit k (2 ^ n + p) else a) < 2 ^ (n + k)"
proof -
  let ?c = "2 ^ n + p"
  define a' where "a' = (if bit a (n + k) then a XOR push_bit k ?c else a)"
  have "\<not> bit a' j" if "n + k \<le> j" for j
  proof (cases "j = n + k")
    case True
    then show ?thesis
      unfolding a'_def by (simp add: bit_xor_iff bit_push_bit_iff_nat bit_monic[OF c])
  next
    case False
    then have j: "n + Suc k \<le> j" using that by simp
    then have aj: "\<not> bit a j" using a unfolding nat_lt_pow_iff_bits by blast
    have "\<not> bit p (j - k)"
      using c j unfolding nat_lt_pow_iff_bits by (simp add: le_diff_conv2)
    then have "\<not> bit (push_bit k ?c) j"
      using j by (auto simp: bit_push_bit_iff_nat bit_monic[OF c])
    then show ?thesis using aj unfolding a'_def by (simp add: bit_xor_iff)
  qed
  then show ?thesis unfolding nat_lt_pow_iff_bits a'_def by blast
qed

lemma gf2_rem_less:
  assumes c: "p < (2::nat) ^ n" and a: "a < 2 ^ (n + k)"
  shows "gf2_rem n (2 ^ n + p) k a < 2 ^ n"
  using a
proof (induction k arbitrary: a)
  case 0
  then show ?case by simp
next
  case (Suc k)
  show ?case
    unfolding gf2_rem.simps by (rule Suc.IH) (rule gf2_step_less[OF c Suc.prems])
qed

text \<open>\<open>gf2_mod a c\<close> is the remainder of \<open>a\<close> modulo a monic \<open>c\<close> of degree \<open>n\<close>: it has degree
  below \<open>n\<close> and differs from \<open>a\<close> by a multiple of \<open>c\<close>.\<close>

lemma gf2_mod_remainder:
  assumes c: "p < (2::nat) ^ n"
  shows "gf2_mod a (2 ^ n + p) < 2 ^ n" and "a XOR gf2_mod a (2 ^ n + p) \<in> gf2_multiples (2 ^ n + p)"
proof -
  have "bit_width_size a \<le> n + (bit_width_size a - n)" by simp
  then have "a < 2 ^ (n + (bit_width_size a - n))" by (simp only: bit_width_size_le_iff)
  then show "gf2_mod a (2 ^ n + p) < 2 ^ n"
    unfolding gf2_mod_def bit_width_size_monic[OF c] using gf2_rem_less[OF c] by simp
  show "a XOR gf2_mod a (2 ^ n + p) \<in> gf2_multiples (2 ^ n + p)"
    unfolding gf2_mod_def by (rule gf2_rem_multiple)
qed

section \<open>The packed polynomials of \<open>reduce\<close>\<close>

lemma poly_of_words_unit0:
  assumes "0 < N"
  shows "poly_of_words (unit_poly N 0 :: 'a::len word list) = 1"
proof (rule bit_eqI)
  fix k
  have n: "0 < N * LENGTH('a)" using assms by simp
  have b1: "bit (1::nat) k \<longleftrightarrow> k = 0" by (simp only: bit_1_iff)
  show "bit (poly_of_words (unit_poly N 0 :: 'a word list)) k \<longleftrightarrow> bit (1::nat) k"
  proof (cases "k < N * LENGTH('a)")
    case True
    then show ?thesis
      unfolding b1 bit_poly_of_words using test_unit_poly[OF n True] by simp
  next
    case False
    then have "k \<noteq> 0" using n by (intro notI) simp
    then show ?thesis unfolding b1 bit_poly_of_words using False by simp
  qed
qed

lemma poly_of_words_times_x:
  fixes p r :: "'a::len word list"
  assumes r: "length r = N" and p: "length p = N" and N: "0 < N"
  shows "poly_of_words (times_x_step N p r)
       = gf2_mulx (N * LENGTH('a)) (2 ^ (N * LENGTH('a)) + poly_of_words p) (poly_of_words r)"
proof (rule bit_eqI)
  fix k
  let ?n = "N * LENGTH('a)"
  have n: "0 < ?n" using N by simp
  have pl: "poly_of_words p < 2 ^ ?n" using poly_of_words_less[of p] p by simp
  have rl: "poly_of_words r < 2 ^ ?n" using poly_of_words_less[of r] r by simp
  have lt: "length (times_x_step N p r) = N" using r N by simp
  have top: "bit (poly_of_words r) (?n - 1) = test r (?n - 1)"
    using n r by (simp add: bit_poly_of_words)
  have L: "bit (poly_of_words (times_x_step N p r)) k
      \<longleftrightarrow> k < ?n \<and> ((0 < k \<and> test r (k - 1)) \<noteq> (test r (?n - 1) \<and> test p k))"
    unfolding bit_poly_of_words lt using test_times_x_step[OF r p, of k] by blast
  have R2: "bit (2 * poly_of_words r) k \<longleftrightarrow> 0 < k \<and> k - 1 < ?n \<and> test r (k - 1)"
    using r by (auto simp: bit_double_iff bit_poly_of_words)
  have Rc: "bit (2 ^ ?n + poly_of_words p) k \<longleftrightarrow> k = ?n \<or> (k < ?n \<and> test p k)"
    unfolding bit_monic[OF pl] using p by (simp add: bit_poly_of_words)
  show "bit (poly_of_words (times_x_step N p r)) k
      \<longleftrightarrow> bit (gf2_mulx ?n (2 ^ ?n + poly_of_words p) (poly_of_words r)) k"
  proof (cases "test r (?n - 1)")
    case True
    have "bit (gf2_mulx ?n (2 ^ ?n + poly_of_words p) (poly_of_words r)) k
        \<longleftrightarrow> ((0 < k \<and> k - 1 < ?n \<and> test r (k - 1)) \<noteq> (k = ?n \<or> (k < ?n \<and> test p k)))"
      unfolding gf2_mulx_def top using True by (simp add: bit_xor_iff R2 Rc)
    also have "\<dots> \<longleftrightarrow> k < ?n \<and> ((0 < k \<and> test r (k - 1)) \<noteq> (test r (?n - 1) \<and> test p k))"
    proof (cases "k < ?n")
      case True
      then show ?thesis using \<open>test r (?n - 1)\<close> by auto
    next
      case False
      show ?thesis
      proof (cases "k = ?n")
        case True
        then show ?thesis using \<open>test r (?n - 1)\<close> n by simp
      next
        case False
        then have "\<not> k - 1 < ?n" using \<open>\<not> k < ?n\<close> by simp
        then show ?thesis using False \<open>\<not> k < ?n\<close> by simp
      qed
    qed
    finally show ?thesis using L by simp
  next
    case False
    have "bit (gf2_mulx ?n (2 ^ ?n + poly_of_words p) (poly_of_words r)) k
        \<longleftrightarrow> (0 < k \<and> k - 1 < ?n \<and> test r (k - 1))"
      unfolding gf2_mulx_def top using False by (simp add: R2)
    also have "\<dots> \<longleftrightarrow> k < ?n \<and> ((0 < k \<and> test r (k - 1)) \<noteq> (test r (?n - 1) \<and> test p k))"
    proof (cases "k < ?n")
      case True
      then show ?thesis using False by auto
    next
      case kn: False
      show ?thesis
      proof (cases "k = ?n")
        case True
        then show ?thesis using False by simp
      next
        case False
        then have "\<not> k - 1 < ?n" using kn by simp
        then show ?thesis using kn by simp
      qed
    qed
    finally show ?thesis using L by simp
  qed
qed

lemma length_times_x_funpow:
  assumes "length r = N" "0 < N"
  shows "length ((times_x_step N p ^^ e) r) = N"
  by (induction e) (simp_all add: assms)

lemma poly_of_words_power:
  fixes p :: "'a::len word list"
  assumes p: "length p = N" and N: "0 < N"
  shows "poly_of_words ((times_x_step N p ^^ e) (unit_poly N 0))
       = gf2_mod (2 ^ e) (2 ^ (N * LENGTH('a)) + poly_of_words p)"
proof (induction e)
  case 0
  have n: "0 < N * LENGTH('a)" using N by simp
  have pl: "poly_of_words p < 2 ^ (N * LENGTH('a))" using poly_of_words_less[of p] p by simp
  show ?case using gf2_mod_pow2[OF n pl, of 0] by (simp add: poly_of_words_unit0[OF N])
next
  case (Suc e)
  have n: "0 < N * LENGTH('a)" using N by simp
  have pl: "poly_of_words p < 2 ^ (N * LENGTH('a))" using poly_of_words_less[of p] p by simp
  have l: "length ((times_x_step N p ^^ e) (unit_poly N 0 :: 'a word list)) = N"
    by (rule length_times_x_funpow[OF _ N]) simp
  show ?case
    unfolding funpow.simps o_def poly_of_words_times_x[OF l p N] Suc.IH
    by (rule gf2_mod_pow2_Suc[OF n pl, symmetric])
qed

text \<open>\<open>reduce\<close> computes the remainder of the specification, whatever the workspace \<open>hi\<close> holds
  at the start.\<close>

lemma reduce_ws_spec:
  fixes p hi0 :: "'a::len word list"
  assumes "interleaves TYPE('a)" "N * LENGTH('a) < 2 ^ 64" "0 < N" "length p = N" "length hi0 = N"
  shows "poly_of_words (reduce_ws N hi0 p J J_is_pow2)
           = reduce_spec (N * LENGTH('a)) (poly_of_words p) J J_is_pow2"
    and "length (reduce_ws N hi0 p J J_is_pow2) = N"
  unfolding reduce_ws_companion[OF assms] reduce_spec_def
  by (rule poly_of_words_power[OF assms(4,3)]) (rule length_times_x_funpow[OF _ assms(3)], simp)

lemma reduce_spec_correct:
  fixes p :: "'a::len word list"
  assumes "interleaves TYPE('a)" "N * LENGTH('a) < 2 ^ 64" "0 < N" "length p = N"
  shows "length (reduce N p J J_is_pow2) = N
       \<and> poly_of_words (reduce N p J J_is_pow2) = reduce_spec (N * LENGTH('a)) (poly_of_words p) J J_is_pow2
       \<and> poly_of_words (reduce N p J J_is_pow2) < 2 ^ (N * LENGTH('a))
       \<and> 2 ^ (if J_is_pow2 then 2 ^ J else J) XOR poly_of_words (reduce N p J J_is_pow2)
           \<in> gf2_multiples (2 ^ (N * LENGTH('a)) + poly_of_words p)"
proof -
  have hi: "length (replicate N (0 :: 'a word)) = N" by simp
  note s = reduce_ws_spec[OF assms hi, of J J_is_pow2, folded reduce_def]
  have pl: "poly_of_words p < 2 ^ (N * LENGTH('a))" using poly_of_words_less[of p] assms(4) by simp
  show ?thesis
    unfolding s(1) using s(2) gf2_mod_remainder[OF pl, of "2 ^ (if J_is_pow2 then 2 ^ J else J)"]
    by (simp add: reduce_spec_def)
qed

section \<open>The claims\<close>

text \<open>
  Claim C10.  A default-constructed state (no seeding) of either family with \<open>N \<ge> 1\<close> words
  holds the word array \<open>(1, 0, \<dots>, 0)\<close>; for xoroshiro the position \<open>m_final\<close> is
  \<open>N - 1\<close>, so the logical order read through \<open>operator[]\<close> is the physical order.  The
  state is therefore not all zero, and it is the same fixed value on every run.
\<close>


theorem default_state:
  assumes "1 \<le> N"
  shows "length (xoshiro_init N :: 'a::len word list) = N
       \<and> xoshiro_get_state N (xoshiro_init N :: 'a word list) = 1 # replicate (N - 1) 0
       \<and> (\<exists>i<N. xoshiro_get (xoshiro_init N :: 'a word list) i \<noteq> 0)
       \<and> length (m_state (xoroshiro_init N :: 'a word xoroshiro)) = N
       \<and> m_state (xoroshiro_init N :: 'a word xoroshiro) = 1 # replicate (N - 1) 0
       \<and> m_final (xoroshiro_init N :: 'a word xoroshiro) = N - 1
       \<and> xoroshiro_get_state N (xoroshiro_init N :: 'a word xoroshiro)
            = m_state (xoroshiro_init N :: 'a word xoroshiro)
       \<and> (\<exists>i<N. xoroshiro_get N (xoroshiro_init N :: 'a word xoroshiro) i \<noteq> 0)"
proof -
  let ?l = "1 # replicate (N - 1) (0 :: 'a word)"
  have len: "length ?l = N" using assms by simp
  have a: "map ((!) ?l) [0..<N] = ?l"
    using map_nth[of ?l] by (simp only: len)
  have idx: "(i + (N - 1) + 1) mod N = i" if "i < N" for i
    using that by simp
  have b: "map (\<lambda>i. ?l ! ((i + (N - 1) + 1) mod N)) [0..<N] = map ((!) ?l) [0..<N]"
    by (rule map_cong) (simp_all add: idx)
  have c: "\<exists>i<N. ?l ! i \<noteq> 0"
    using assms by (intro exI[of _ 0]) simp
  have d: "\<exists>i<N. ?l ! ((i + (N - 1) + 1) mod N) \<noteq> 0"
    using assms by (intro exI[of _ 0]) (simp add: idx)
  show ?thesis
    unfolding xoshiro_init_def xoroshiro_init_def xoshiro_get_state_def xoroshiro_get_state_def
      xoshiro_get_def xoroshiro_get_def
    using len a b c d by (simp del: upt_Suc)
qed

theorem default_state_witness:
  "(1::nat) \<le> 4
   \<and> xoshiro_get_state 4 (xoshiro_init 4 :: 32 word list) = [1, 0, 0, 0]
   \<and> m_final (xoroshiro_init 16 :: 64 word xoroshiro) = 15
   \<and> xoroshiro_get_state 16 (xoroshiro_init 16 :: 64 word xoroshiro)
        = m_state (xoroshiro_init 16 :: 64 word xoroshiro)"
  using default_state[of 4, where 'a = 32] default_state[of 16, where 'a = 64]
  by (simp add: numeral_eq_Suc)

text \<open>
  Claim C9.  \<open>characteristic_coefficients\<close> throws exactly when the combination of word
  type, word count and shift parameters is none of the shipped ones (three for xoshiro, four
  for xoroshiro); for each of the seven shipped combinations it yields exactly the stored
  \<open>N\<close> coefficient words.  The word type counts as a type: an unsigned type of the same width
  as \<open>uint32_t\<close> or \<open>uint64_t\<close> that is another type has no table and throws.
\<close>

theorem characteristic_coefficients_table:
  "(isl (xoshiro_characteristic_coefficients T N A B :: error + 'a::len word list)
      \<longleftrightarrow> \<not> ((T, N, A, B) = (Uint32_t, 4, 9, 11) \<or> (T, N, A, B) = (Uint64_t, 4, 17, 45)
             \<or> (T, N, A, B) = (Uint64_t, 8, 11, 21)))
   \<and> (isl (xoroshiro_characteristic_coefficients T N A B C :: error + 'a word list)
      \<longleftrightarrow> \<not> ((T, N, A, B, C) = (Uint32_t, 2, 26, 9, 13) \<or> (T, N, A, B, C) = (Uint64_t, 2, 24, 16, 37)
             \<or> (T, N, A, B, C) = (Uint64_t, 2, 49, 21, 28) \<or> (T, N, A, B, C) = (Uint64_t, 16, 25, 27, 36)))
   \<and> (xoshiro_characteristic_coefficients Uint32_t 4 9 11 :: error + 32 word list)
        = Inr [0xde18fc01, 0x1b489db6, 0x6254b1, 0xfc65a2]
   \<and> (xoshiro_characteristic_coefficients Uint64_t 4 17 45 :: error + 64 word list)
        = Inr [0x9d116f2bb0f0f001, 0x280002bcefd1a5e, 0x4b4edcf26259f85, 0x3c03c3f3ecb19]
   \<and> (xoshiro_characteristic_coefficients Uint64_t 8 11 21 :: error + 64 word list)
        = Inr [0xcf3cff0c00000001, 0x7fdc78d886f00c63, 0xf05e63fca6d7b781, 0x7a67058e7bbab6f0,
               0xf11eef832e32518f, 0x51ba7c47edc758ad, 0x8f2d27268ce4b20b, 0x500055d8b77f]
   \<and> (xoroshiro_characteristic_coefficients Uint32_t 2 26 9 13 :: error + 32 word list)
        = Inr [0x6e2286c1, 0x53be9da]
   \<and> (xoroshiro_characteristic_coefficients Uint64_t 2 24 16 37 :: error + 64 word list)
        = Inr [0x95b8f76579aa001, 0x8828e513b43d5]
   \<and> (xoroshiro_characteristic_coefficients Uint64_t 2 49 21 28 :: error + 64 word list)
        = Inr [0x8dae70779760b081, 0x31bcf2f855d6e5]
   \<and> (xoroshiro_characteristic_coefficients Uint64_t 16 25 27 36 :: error + 64 word list)
        = Inr [0x5cfeb8cc48ddb211, 0xb73e379d035a06dd, 0x17d5100a20a0350e, 0x7550223f68f98cac,
               0x29d373b5c5ed3459, 0x3689b412ef70de48, 0xa1d3b6ee079a7cc6, 0x9bf0b669abd100f8,
               0x955c84e105f60997, 0x6ca140c61889cddd, 0xabaf68c5fc3a0e4a, 0xa46134526b83adc5,
               0x710704d05683d63, 0x580d080b44b606a2, 0x8040a0580158a1, 0x800081]
   \<and> (xoshiro_characteristic_coefficients Other_unsigned 4 17 45 :: error + 64 word list)
        = Inl (Invalid_argument ''xoshiro characteristic polynomial not pre-computed for given parameters!'')
   \<and> (xoshiro_characteristic_coefficients Other_unsigned 4 9 11 :: error + 32 word list)
        = Inl (Invalid_argument ''xoshiro characteristic polynomial not pre-computed for given parameters!'')
   \<and> (xoroshiro_characteristic_coefficients Other_unsigned 2 24 16 37 :: error + 64 word list)
        = Inl (Invalid_argument ''xoroshiro characteristic polynomial not pre-computed for given parameters!'')
   \<and> (xoroshiro_characteristic_coefficients Uint64_t 2 26 9 13 :: error + 64 word list)
        = Inl (Invalid_argument ''xoroshiro characteristic polynomial not pre-computed for given parameters!'')"
  unfolding xoshiro_characteristic_coefficients_def xoroshiro_characteristic_coefficients_def
  by (simp split: if_splits)

text \<open>
  Claim C3.  For every word count \<open>N \<ge> 2\<close> and every seed of \<open>N\<close> words, \<open>k\<close> steps of the
  direct array-shift realisation (\<open>simple_step\<close>) and \<open>k\<close> steps of the ring-buffer
  realisation (\<open>clever_step\<close>) from the same seeded state show the same \<open>N\<close> logical words
  through \<open>get_state\<close> and \<open>operator[]\<close>, for every \<open>k\<close>.
\<close>


theorem simple_clever_equivalent:
  assumes "2 \<le> N" "length ws = N" "length (m_state s) = N"
  shows "xoroshiro_get_state N ((clever_step N A B C ^^ k) (xoroshiro_seed N ws s))
       = xoroshiro_get_state N ((simple_step N A B C ^^ k) (xoroshiro_seed N ws s))
       \<and> (\<forall>i<N. xoroshiro_get N ((clever_step N A B C ^^ k) (xoroshiro_seed N ws s)) i
                = xoroshiro_get N ((simple_step N A B C ^^ k) (xoroshiro_seed N ws s)) i)"
proof -
  let ?s = "xoroshiro_seed N ws s"
  have N0: "0 < N" using assms by simp
  note sd = seed_ring_ok[OF assms(2) N0 assms(3)]
  have "xoroshiro_get_state N ((clever_step N A B C ^^ k) ?s)
      = (xoroshiro_words_step N A B C ^^ k) (xoroshiro_get_state N ?s)"
    using clever_funpow[OF assms(1) sd(1)] by simp
  moreover have "xoroshiro_get_state N ((simple_step N A B C ^^ k) ?s)
      = (xoroshiro_words_step N A B C ^^ k) (xoroshiro_get_state N ?s)"
    using simple_funpow[OF assms(1), where s = ?s and A = A and B = B and C = C and k = k] sd assms by simp
  ultimately have eq: "xoroshiro_get_state N ((clever_step N A B C ^^ k) ?s)
       = xoroshiro_get_state N ((simple_step N A B C ^^ k) ?s)" by simp
  have "xoroshiro_get N ((clever_step N A B C ^^ k) ?s) i = xoroshiro_get N ((simple_step N A B C ^^ k) ?s) i"
    if "i < N" for i
    using arg_cong[OF eq, of "\<lambda>l. l ! i"] that by (simp add: xoroshiro_get_state_def)
  with eq show ?thesis by simp
qed

theorem simple_clever_equivalent_witness:
  "(2::nat) \<le> 3 \<and> length [5, 6, 7 :: 8 word] = 3 \<and> length (m_state (xoroshiro_init 3 :: 8 word xoroshiro)) = 3
   \<and> xoroshiro_get_state 3 ((clever_step 3 1 2 3 ^^ 4) (xoroshiro_seed 3 [5, 6, 7 :: 8 word] (xoroshiro_init 3)))
     = xoroshiro_get_state 3 ((simple_step 3 1 2 3 ^^ 4) (xoroshiro_seed 3 [5, 6, 7 :: 8 word] (xoroshiro_init 3)))"
  using simple_clever_equivalent[where N = 3 and ws = "[5, 6, 7 :: 8 word]" and A = 1 and B = 2 and C = 3
      and k = 4 and s = "xoroshiro_init 3"]
  by (simp add: xoroshiro_init_def)

text \<open>
  Claim C8 (amended).  For every state, every state type and every jump polynomial \<open>r\<close>,
  \<open>jump(state, r)\<close> calls the state's \<open>step()\<close> once for every bit position of the \<open>N\<close>
  coefficient words, that is exactly \<open>N \<times> W\<close> times, whatever the coefficients of \<open>r\<close> are;
  the instrumented run computes the same jumped state.
\<close>

theorem jump_step_count:
  fixes get :: "'s \<Rightarrow> nat \<Rightarrow> 'a::len word"
  shows "snd (jump N (counting_get get) (counting_step step) (counting_seed seed) (s, 0) r)
           = N * LENGTH('a)
       \<and> fst (jump N (counting_get get) (counting_step step) (counting_seed seed) (s, 0) r)
           = jump N get step seed s r"
  by (simp add: jump_counting)

text \<open>
  The claim as written fails: for the jump polynomial \<open>r(x) = 1\<close> of a two-word, 32-bit
  xoroshiro state the highest set coefficient has index 0, and \<open>jump\<close> calls \<open>step()\<close>
  64 times, not once.
\<close>

theorem jump_step_count_counterexample:
  "snd (jump 2 (counting_get (xoroshiro_get 2)) (counting_step (xoroshiro_step 2 26 9 13))
          (counting_seed (xoroshiro_seed 2)) (xoroshiro_init 2, 0) [1, 0 :: 32 word])
     \<noteq> 1 + final_set 2 [1, 0 :: 32 word]"
  by (simp add: jump_counting final_set_one)

text \<open>
  Claim C6.  For every coefficient array \<open>p\<close>, \<open>reduce(p, 0, true)\<close> is the polynomial \<open>x\<close>:
  among the \<open>n = N \<times> W\<close> coefficients exactly the one of \<open>x^1\<close> is set, and so
  \<open>jump_coefficients(0, true)\<close> of a state type with the table \<open>p\<close> returns \<open>x\<close>.  For each of
  the seven state types with a table \<open>jump_coefficients(0, true)\<close> does not throw and returns
  \<open>x\<close>.  Whenever \<open>jump_coefficients(0, true)\<close> of a state type returns coefficients \<open>r\<close>,
  \<open>jump(s, r)\<close> is one native step: for the xoshiro states (4 and 8 words) the jumped object
  is the stepped object, and for the xoroshiro states (any \<open>N \<ge> 2\<close>) the jumped object
  shows, now and after any number \<open>k\<close> of further steps, the same logical words as the
  stepped one.
\<close>

theorem pow2_zero_is_one_step:
  fixes p :: "'a::len word list"
  assumes "1 < N * LENGTH('a)"
  shows "reduce N p 0 True = set_coeff (replicate N 0) 1
       \<and> (\<forall>k < N * LENGTH('a). test (reduce N p 0 True) k \<longleftrightarrow> k = 1)
       \<and> jump_coefficients N (Inr p) 0 True = Inr (set_coeff (replicate N 0) 1)
       \<and> jump_coefficients 4 (xoshiro_characteristic_coefficients Uint32_t 4 9 11) 0 True
           = Inr (set_coeff (replicate 4 (0 :: 32 word)) 1)
       \<and> jump_coefficients 4 (xoshiro_characteristic_coefficients Uint64_t 4 17 45) 0 True
           = Inr (set_coeff (replicate 4 (0 :: 64 word)) 1)
       \<and> jump_coefficients 8 (xoshiro_characteristic_coefficients Uint64_t 8 11 21) 0 True
           = Inr (set_coeff (replicate 8 (0 :: 64 word)) 1)
       \<and> jump_coefficients 2 (xoroshiro_characteristic_coefficients Uint32_t 2 26 9 13) 0 True
           = Inr (set_coeff (replicate 2 (0 :: 32 word)) 1)
       \<and> jump_coefficients 2 (xoroshiro_characteristic_coefficients Uint64_t 2 24 16 37) 0 True
           = Inr (set_coeff (replicate 2 (0 :: 64 word)) 1)
       \<and> jump_coefficients 2 (xoroshiro_characteristic_coefficients Uint64_t 2 49 21 28) 0 True
           = Inr (set_coeff (replicate 2 (0 :: 64 word)) 1)
       \<and> jump_coefficients 16 (xoroshiro_characteristic_coefficients Uint64_t 16 25 27 36) 0 True
           = Inr (set_coeff (replicate 16 (0 :: 64 word)) 1)
       \<and> (\<forall>T r. \<forall>m :: 'a word list.
            jump_coefficients 4 (xoshiro_characteristic_coefficients T 4 A B) 0 True = Inr r \<longrightarrow> length m = 4 \<longrightarrow>
            jump 4 xoshiro_get (xoshiro_step4 A B) xoshiro_seed m r = xoshiro_step4 A B m)
       \<and> (\<forall>T r. \<forall>m :: 'a word list.
            jump_coefficients 8 (xoshiro_characteristic_coefficients T 8 A B) 0 True = Inr r \<longrightarrow> length m = 8 \<longrightarrow>
            jump 8 xoshiro_get (xoshiro_step8 A B) xoshiro_seed m r = xoshiro_step8 A B m)
       \<and> (\<forall>T r. \<forall>s :: 'a word xoroshiro.
            jump_coefficients N (xoroshiro_characteristic_coefficients T N A B C) 0 True = Inr r \<longrightarrow>
            2 \<le> N \<longrightarrow> xoroshiro_ok N s \<longrightarrow> (\<forall>k.
            xoroshiro_get_state N ((xoroshiro_step N A B C ^^ k)
               (jump N (xoroshiro_get N) (xoroshiro_step N A B C) (xoroshiro_seed N) s r))
          = xoroshiro_get_state N ((xoroshiro_step N A B C ^^ k) (xoroshiro_step N A B C s))))"
proof (intro conjI allI impI)
  show "reduce N p 0 True = set_coeff (replicate N 0) 1" by (rule reduce_pow2_zero)
next
  fix k assume "k < N * LENGTH('a)"
  then show "test (reduce N p 0 True) k \<longleftrightarrow> k = 1"
    unfolding reduce_pow2_zero by (rule test_set_coeff_zero[OF assms])
next
  show "jump_coefficients N (Inr p) 0 True = Inr (set_coeff (replicate N 0) 1)"
    by (rule jump_coefficients_pow2_zero)
next
  show "jump_coefficients 4 (xoshiro_characteristic_coefficients Uint32_t 4 9 11) 0 True
           = Inr (set_coeff (replicate 4 (0 :: 32 word)) 1)"
    by (simp add: xoshiro_characteristic_coefficients_def jump_coefficients_pow2_zero)
next
  show "jump_coefficients 4 (xoshiro_characteristic_coefficients Uint64_t 4 17 45) 0 True
           = Inr (set_coeff (replicate 4 (0 :: 64 word)) 1)"
    by (simp add: xoshiro_characteristic_coefficients_def jump_coefficients_pow2_zero)
next
  show "jump_coefficients 8 (xoshiro_characteristic_coefficients Uint64_t 8 11 21) 0 True
           = Inr (set_coeff (replicate 8 (0 :: 64 word)) 1)"
    by (simp add: xoshiro_characteristic_coefficients_def jump_coefficients_pow2_zero)
next
  show "jump_coefficients 2 (xoroshiro_characteristic_coefficients Uint32_t 2 26 9 13) 0 True
           = Inr (set_coeff (replicate 2 (0 :: 32 word)) 1)"
    by (simp add: xoroshiro_characteristic_coefficients_def jump_coefficients_pow2_zero)
next
  show "jump_coefficients 2 (xoroshiro_characteristic_coefficients Uint64_t 2 24 16 37) 0 True
           = Inr (set_coeff (replicate 2 (0 :: 64 word)) 1)"
    by (simp add: xoroshiro_characteristic_coefficients_def jump_coefficients_pow2_zero)
next
  show "jump_coefficients 2 (xoroshiro_characteristic_coefficients Uint64_t 2 49 21 28) 0 True
           = Inr (set_coeff (replicate 2 (0 :: 64 word)) 1)"
    by (simp add: xoroshiro_characteristic_coefficients_def jump_coefficients_pow2_zero)
next
  show "jump_coefficients 16 (xoroshiro_characteristic_coefficients Uint64_t 16 25 27 36) 0 True
           = Inr (set_coeff (replicate 16 (0 :: 64 word)) 1)"
    by (simp add: xoroshiro_characteristic_coefficients_def jump_coefficients_pow2_zero)
next
  fix T and r m :: "'a word list"
  assume jc: "jump_coefficients 4 (xoshiro_characteristic_coefficients T 4 A B) 0 True = Inr r"
    and m: "length m = 4"
  have r: "r = set_coeff (replicate 4 0) 1" by (rule jump_coefficients_pow2_zero_Inr[OF jc])
  show "jump 4 xoshiro_get (xoshiro_step4 A B) xoshiro_seed m r = xoshiro_step4 A B m"
    unfolding r by (rule xoshiro4_jump_x[OF m])
next
  fix T and r m :: "'a word list"
  assume jc: "jump_coefficients 8 (xoshiro_characteristic_coefficients T 8 A B) 0 True = Inr r"
    and m: "length m = 8"
  have r: "r = set_coeff (replicate 8 0) 1" by (rule jump_coefficients_pow2_zero_Inr[OF jc])
  show "jump 8 xoshiro_get (xoshiro_step8 A B) xoshiro_seed m r = xoshiro_step8 A B m"
    unfolding r by (rule xoshiro8_jump_x[OF m])
next
  fix T k and r :: "'a word list" and s :: "'a word xoroshiro"
  assume jc: "jump_coefficients N (xoroshiro_characteristic_coefficients T N A B C) 0 True = Inr r"
    and N: "2 \<le> N" and ok: "xoroshiro_ok N s"
  have r: "r = set_coeff (replicate N 0) 1" by (rule jump_coefficients_pow2_zero_Inr[OF jc])
  show "xoroshiro_get_state N ((xoroshiro_step N A B C ^^ k)
               (jump N (xoroshiro_get N) (xoroshiro_step N A B C) (xoroshiro_seed N) s r))
          = xoroshiro_get_state N ((xoroshiro_step N A B C ^^ k) (xoroshiro_step N A B C s))"
    unfolding r by (rule xoroshiro_jump_x[OF N ok assms])
qed

theorem pow2_zero_is_one_step_witness:
  "(1::nat) < 16 * LENGTH(64)
   \<and> reduce 16 (replicate 16 (5 :: 64 word)) 0 True = set_coeff (replicate 16 0) 1
   \<and> jump_coefficients 4 (xoshiro_characteristic_coefficients Uint64_t 4 17 45) 0 True
       = Inr (set_coeff (replicate 4 (0 :: 64 word)) 1)
   \<and> length [1, 2, 3, 4 :: 64 word] = 4
   \<and> jump 4 xoshiro_get (xoshiro_step4 17 45) xoshiro_seed [1, 2, 3, 4 :: 64 word]
        (set_coeff (replicate 4 0) 1)
       = xoshiro_step4 17 45 [1, 2, 3, 4]
   \<and> jump_coefficients 16 (xoroshiro_characteristic_coefficients Uint64_t 16 25 27 36) 0 True
       = Inr (set_coeff (replicate 16 (0 :: 64 word)) 1)
   \<and> (2::nat) \<le> 16 \<and> xoroshiro_ok 16 (xoroshiro_init 16 :: 64 word xoroshiro)
   \<and> xoroshiro_get_state 16 ((xoroshiro_step 16 25 27 36 ^^ 3)
               (jump 16 (xoroshiro_get 16) (xoroshiro_step 16 25 27 36) (xoroshiro_seed 16)
                  (xoroshiro_init 16 :: 64 word xoroshiro) (set_coeff (replicate 16 0) 1)))
          = xoroshiro_get_state 16 ((xoroshiro_step 16 25 27 36 ^^ 3)
               (xoroshiro_step 16 25 27 36 (xoroshiro_init 16)))"
proof -
  have a: "(1::nat) < 16 * LENGTH(64)" by simp
  have ok: "xoroshiro_ok 16 (xoroshiro_init 16 :: 64 word xoroshiro)"
    by (simp add: xoroshiro_ok_def xoroshiro_init_def)
  note t = pow2_zero_is_one_step[OF a, where p = "replicate 16 (5 :: 64 word)"
      and A = 17 and B = 45]
  note u = pow2_zero_is_one_step[OF a, where p = "replicate 16 (5 :: 64 word)"
      and A = 25 and B = 27 and C = 36]
  have c1: "reduce 16 (replicate 16 (5 :: 64 word)) 0 True = set_coeff (replicate 16 0) 1"
    by (rule u[THEN conjunct1])
  have j4: "jump_coefficients 4 (xoshiro_characteristic_coefficients Uint64_t 4 17 45) 0 True
       = Inr (set_coeff (replicate 4 (0 :: 64 word)) 1)"
    by (rule u[THEN conjunct2, THEN conjunct2, THEN conjunct2, THEN conjunct2, THEN conjunct1])
  have j16: "jump_coefficients 16 (xoroshiro_characteristic_coefficients Uint64_t 16 25 27 36) 0 True
       = Inr (set_coeff (replicate 16 (0 :: 64 word)) 1)"
    by (rule u[THEN conjunct2, THEN conjunct2, THEN conjunct2, THEN conjunct2, THEN conjunct2,
          THEN conjunct2, THEN conjunct2, THEN conjunct2, THEN conjunct2, THEN conjunct1])
  have c3: "jump 4 xoshiro_get (xoshiro_step4 17 45) xoshiro_seed [1, 2, 3, 4 :: 64 word]
        (set_coeff (replicate 4 0) 1)
       = xoshiro_step4 17 45 [1, 2, 3, 4]"
    by (rule t[THEN conjunct2, THEN conjunct2, THEN conjunct2, THEN conjunct2, THEN conjunct2,
          THEN conjunct2, THEN conjunct2, THEN conjunct2, THEN conjunct2, THEN conjunct2,
          THEN conjunct1, rule_format, OF j4]) simp
  have c5: "xoroshiro_get_state 16 ((xoroshiro_step 16 25 27 36 ^^ 3)
               (jump 16 (xoroshiro_get 16) (xoroshiro_step 16 25 27 36) (xoroshiro_seed 16)
                  (xoroshiro_init 16 :: 64 word xoroshiro) (set_coeff (replicate 16 0) 1)))
          = xoroshiro_get_state 16 ((xoroshiro_step 16 25 27 36 ^^ 3)
               (xoroshiro_step 16 25 27 36 (xoroshiro_init 16)))"
    by (rule u[THEN conjunct2, THEN conjunct2, THEN conjunct2, THEN conjunct2, THEN conjunct2,
          THEN conjunct2, THEN conjunct2, THEN conjunct2, THEN conjunct2, THEN conjunct2,
          THEN conjunct2, THEN conjunct2, rule_format, OF j16 _ ok]) simp
  show ?thesis
    by (intro conjI a ok c1 c3 c5 j4 j16) simp_all
qed
text \<open>
  Claim C2.  For every coefficient array \<open>p\<close> of \<open>N\<close> words (of 8, 16, 32 or 64 bits) and every
  \<open>J\<close>, \<open>reduce(p, J, J_is_pow2)\<close> returns \<open>N\<close> words that hold exactly the coefficients of
  \<open>x^J mod c(x)\<close>, and of \<open>x^(2^J) mod c(x)\<close> when \<open>J_is_pow2\<close> is set, for
  \<open>c(x) = x^n + p(x)\<close> and \<open>n = N \<times> W\<close>: the packed result is the remainder \<open>reduce_spec\<close> of
  the long division, it has degree below \<open>n\<close>, and it differs from the power of \<open>x\<close> by a
  multiple of \<open>c(x)\<close>.
\<close>

theorem reduce_is_power_mod:
  fixes p8 :: "8 word list" and p16 :: "16 word list" and p32 :: "32 word list"
    and p64 :: "64 word list"
  assumes "0 < N" "N * 64 < 2 ^ 64"
    and "length p8 = N" "length p16 = N" "length p32 = N" "length p64 = N"
  shows "(length (reduce N p8 J J_is_pow2) = N
       \<and> poly_of_words (reduce N p8 J J_is_pow2) = reduce_spec (N * 8) (poly_of_words p8) J J_is_pow2
       \<and> poly_of_words (reduce N p8 J J_is_pow2) < 2 ^ (N * 8)
       \<and> 2 ^ (if J_is_pow2 then 2 ^ J else J) XOR poly_of_words (reduce N p8 J J_is_pow2)
           \<in> gf2_multiples (2 ^ (N * 8) + poly_of_words p8))
     \<and> (length (reduce N p16 J J_is_pow2) = N
       \<and> poly_of_words (reduce N p16 J J_is_pow2) = reduce_spec (N * 16) (poly_of_words p16) J J_is_pow2
       \<and> poly_of_words (reduce N p16 J J_is_pow2) < 2 ^ (N * 16)
       \<and> 2 ^ (if J_is_pow2 then 2 ^ J else J) XOR poly_of_words (reduce N p16 J J_is_pow2)
           \<in> gf2_multiples (2 ^ (N * 16) + poly_of_words p16))
     \<and> (length (reduce N p32 J J_is_pow2) = N
       \<and> poly_of_words (reduce N p32 J J_is_pow2) = reduce_spec (N * 32) (poly_of_words p32) J J_is_pow2
       \<and> poly_of_words (reduce N p32 J J_is_pow2) < 2 ^ (N * 32)
       \<and> 2 ^ (if J_is_pow2 then 2 ^ J else J) XOR poly_of_words (reduce N p32 J J_is_pow2)
           \<in> gf2_multiples (2 ^ (N * 32) + poly_of_words p32))
     \<and> (length (reduce N p64 J J_is_pow2) = N
       \<and> poly_of_words (reduce N p64 J J_is_pow2) = reduce_spec (N * 64) (poly_of_words p64) J J_is_pow2
       \<and> poly_of_words (reduce N p64 J J_is_pow2) < 2 ^ (N * 64)
       \<and> 2 ^ (if J_is_pow2 then 2 ^ J else J) XOR poly_of_words (reduce N p64 J J_is_pow2)
           \<in> gf2_multiples (2 ^ (N * 64) + poly_of_words p64))"
proof -
  have l: "LENGTH(8) = 8" "LENGTH(16) = 16" "LENGTH(32) = 32" "LENGTH(64) = 64" by simp_all
  have s: "N * LENGTH(8) < 2 ^ 64" "N * LENGTH(16) < 2 ^ 64" "N * LENGTH(32) < 2 ^ 64"
    "N * LENGTH(64) < 2 ^ 64"
    using assms(2) by simp_all
  note a8 = reduce_spec_correct[OF interleaves_8 s(1) assms(1,3), of J J_is_pow2, unfolded l]
  note a16 = reduce_spec_correct[OF interleaves_16 s(2) assms(1,4), of J J_is_pow2, unfolded l]
  note a32 = reduce_spec_correct[OF interleaves_32 s(3) assms(1,5), of J J_is_pow2, unfolded l]
  note a64 = reduce_spec_correct[OF interleaves_64 s(4) assms(1,6), of J J_is_pow2, unfolded l]
  show ?thesis by (rule conjI[OF a8 conjI[OF a16 conjI[OF a32 a64]]])
qed

theorem reduce_is_power_mod_witness:
  "(0::nat) < 2 \<and> (2::nat) * 64 < 2 ^ 64
   \<and> length [1, 2 :: 8 word] = 2 \<and> length [3, 4 :: 16 word] = 2 \<and> length [5, 6 :: 32 word] = 2
   \<and> length [0x95b8f76579aa001, 0x8828e513b43d5 :: 64 word] = 2
   \<and> length (reduce 2 [0x95b8f76579aa001, 0x8828e513b43d5 :: 64 word] 1000000 False) = 2
   \<and> poly_of_words (reduce 2 [0x95b8f76579aa001, 0x8828e513b43d5 :: 64 word] 1000000 False)
       = reduce_spec (2 * 64) (poly_of_words [0x95b8f76579aa001, 0x8828e513b43d5 :: 64 word]) 1000000 False
   \<and> poly_of_words (reduce 2 [1, 2 :: 8 word] 5 True) = reduce_spec (2 * 8) (poly_of_words [1, 2 :: 8 word]) 5 True"
proof -
  have h: "(0::nat) < 2" "(2::nat) * 64 < 2 ^ 64"
    "length [1, 2 :: 8 word] = 2" "length [3, 4 :: 16 word] = 2" "length [5, 6 :: 32 word] = 2"
    "length [0x95b8f76579aa001, 0x8828e513b43d5 :: 64 word] = 2"
    by simp_all
  note t = reduce_is_power_mod[OF h, of 1000000 False]
  note u = reduce_is_power_mod[OF h, of 5 True]
  show ?thesis
    by (intro conjI h
          t[THEN conjunct2, THEN conjunct2, THEN conjunct2, THEN conjunct1]
          t[THEN conjunct2, THEN conjunct2, THEN conjunct2, THEN conjunct2, THEN conjunct1]
          u[THEN conjunct1, THEN conjunct2, THEN conjunct1])
qed

end
